theory Spec2Isabelle
  imports Main "HOL-Library.Word"
begin

unbundle bit_operations_syntax

section \<open>The stream example of librsync: framing and pumps\<close>

text \<open>
  The sources are \<^verbatim>\<open>examples/stream/common.h\<close> (the framing of one message over a
  socket), \<^verbatim>\<open>client.c\<close> (\<^verbatim>\<open>send_signature\<close>, \<^verbatim>\<open>recv_delta_and_patch_file\<close>) and
  \<^verbatim>\<open>server.c\<close> (\<^verbatim>\<open>recv_signature\<close>, \<^verbatim>\<open>send_delta\<close>). Bytes are 8-bit words, the
  header is a 16-bit word, sizes (\<^verbatim>\<open>size_t\<close>) are natural numbers, \<^verbatim>\<open>int\<close> and
  \<^verbatim>\<open>ssize_t\<close> results are integers.
\<close>

subsection \<open>Constants and memory\<close>

type_synonym byte = "8 word"

definition UINT16_MAX :: nat where
  "UINT16_MAX = 65535"

text \<open>\<^verbatim>\<open>#define BUFFER_SIZE (UINT16_MAX >> 1)\<close>\<close>

definition BUFFER_SIZE :: nat where
  "BUFFER_SIZE = drop_bit 1 UINT16_MAX"

text \<open>
  An array is the list of its bytes. \<open>store_bytes mem off bs\<close> is the array after
  \<open>bs\<close> was written at offset \<open>off\<close> (\<open>off\<close> at most the length). C does not check
  the bound: a write that runs past the last element lands in the memory behind the
  array. The model keeps those bytes, so the list grows, and an array that is longer
  than it was declared has been overrun.
\<close>

definition store_bytes :: "byte list \<Rightarrow> nat \<Rightarrow> byte list \<Rightarrow> byte list" where
  "store_bytes mem off bs = take off mem @ bs @ drop (off + length bs) mem"

text \<open>\<^verbatim>\<open>memmove(dst_array, dst_array + src, n)\<close>: the source range is read whole, then
  written at the start.\<close>

definition memmove_front :: "byte list \<Rightarrow> nat \<Rightarrow> nat \<Rightarrow> byte list" where
  "memmove_front mem src n = store_bytes mem 0 (take n (drop src mem))"

subsection \<open>The socket\<close>

text \<open>
  The operating system's \<^verbatim>\<open>read\<close> and \<^verbatim>\<open>write\<close> on a connected stream socket are not
  part of the repository. A socket holds the bytes the peer has sent and that were not
  read yet (\<open>inbox\<close>) and the bytes written so far (\<open>outbox\<close>). What the kernel answers
  to a call is not decided by the program, so each direction carries a plan: the answers
  to the coming calls, in order; a negative entry is the error result \<open>-1\<close>, any other
  entry bounds the number of bytes the call transfers. When the plan is used up, every
  call transfers all it can. A read on an empty inbox returns 0 (the peer has closed).
  \<open>read_calls\<close> is not part of the socket: it counts the calls of \<^verbatim>\<open>read\<close>.
\<close>

record socket =
  inbox :: "byte list"
  read_plan :: "int list"
  read_calls :: nat
  outbox :: "byte list"
  write_plan :: "int list"

definition sock_write :: "socket \<Rightarrow> byte list \<Rightarrow> int \<times> socket" where
  "sock_write s bs =
     (case write_plan s of
        [] \<Rightarrow> (int (length bs), s\<lparr>outbox := outbox s @ bs\<rparr>)
      | k # ks \<Rightarrow>
          if k < 0 then (- 1, s\<lparr>write_plan := ks\<rparr>)
          else (let n = min (nat k) (length bs)
                in (int n, s\<lparr>outbox := outbox s @ take n bs, write_plan := ks\<rparr>)))"

definition sock_read :: "socket \<Rightarrow> nat \<Rightarrow> int \<times> byte list \<times> socket" where
  "sock_read s n =
     (case read_plan s of
        [] \<Rightarrow> (let got = take n (inbox s)
               in (int (length got), got,
                   s\<lparr>inbox := drop (length got) (inbox s),
                     read_calls := Suc (read_calls s)\<rparr>))
      | k # ks \<Rightarrow>
          if k < 0 then (- 1, [], s\<lparr>read_plan := ks, read_calls := Suc (read_calls s)\<rparr>)
          else (let got = take (min (nat k) n) (inbox s)
                in (int (length got), got,
                    s\<lparr>inbox := drop (length got) (inbox s), read_plan := ks,
                      read_calls := Suc (read_calls s)\<rparr>)))"

subsection \<open>Framing: \<^verbatim>\<open>send_message\<close> and \<^verbatim>\<open>recv_message\<close>\<close>

text \<open>
  \<^verbatim>\<open>htons\<close> followed by a write of the two bytes of the value puts the high byte first
  on the wire, whatever the host's byte order; a read of two bytes followed by
  \<^verbatim>\<open>ntohs\<close> is the inverse.
\<close>

definition htons :: "16 word \<Rightarrow> byte list" where
  "htons h = [ucast (drop_bit 8 h), ucast h]"

fun ntohs :: "byte list \<Rightarrow> 16 word" where
  "ntohs (hi # lo # _) = push_bit 8 (ucast hi) OR ucast lo"
| "ntohs _ = 0"

text \<open>How a function of the program ends: it returns a value, or an \<^verbatim>\<open>assert\<close> fails
  and the process is aborted.\<close>

datatype assertion = Len_fits_header | Eof_reached

datatype outcome = Return int | Assert_failed assertion

text \<open>
  \<^verbatim>\<open>send_message(sock, msg, len, eof)\<close>. \<open>msg\<close> is the array the pointer refers to, from
  the pointer on.
\<close>

definition send_message :: "socket \<Rightarrow> byte list \<Rightarrow> nat \<Rightarrow> int \<Rightarrow> outcome \<times> socket" where
  "send_message sock msg len eof =
     (if len \<le> drop_bit 1 UINT16_MAX then
        (let header = (word_of_nat (push_bit 1 len) :: 16 word);
             header = (if eof \<noteq> 0 then header OR 1 else header);
             (ret, sock) = sock_write sock (htons header)
         in if ret \<noteq> 2 then (Return (- 1), sock)
            else if len > 0 then
              (let (ret, sock) = sock_write sock (take len msg)
               in if ret \<noteq> int len then (Return (- 1), sock) else (Return 0, sock))
            else (Return 0, sock))
      else (Assert_failed Len_fits_header, sock))"

text \<open>
  \<^verbatim>\<open>recv_message(sock, msg, &len, &eof)\<close>, where \<open>msg\<close> points at offset \<open>off\<close> of the
  array \<open>mem\<close>. \<open>len\<close> and \<open>eof\<close> are the values of the two variables before the
  call; the result is the return value, the socket, the array and the values of the two
  variables after the call (they are stored only once the header was read).
\<close>

definition recv_message ::
  "socket \<Rightarrow> byte list \<Rightarrow> nat \<Rightarrow> nat \<Rightarrow> int \<Rightarrow> int \<times> socket \<times> byte list \<times> nat \<times> int" where
  "recv_message sock mem off len eof =
     (let (ret, hdr, sock) = sock_read sock 2
      in if ret \<noteq> 2 then (- 1, sock, mem, len, eof)
         else
           (let header = ntohs hdr;
                eof = uint (header AND 1);
                len = unat (drop_bit 1 header)
            in if len > 0 then
                 (let (ret, payload, sock) = sock_read sock len;
                      mem = store_bytes mem off payload
                  in if ret \<noteq> int len then (- 1, sock, mem, len, eof)
                     else (0, sock, mem, len, eof))
               else (0, sock, mem, len, eof)))"

subsection \<open>Files\<close>

text \<open>
  The C library's streams are not part of the repository either. A file open for
  reading holds the bytes not read yet, its end-of-file and error indicators, and, when
  the device is going to fail, the number of bytes that can still be read before it
  does. \<^verbatim>\<open>fread(ptr, 1, n, file)\<close> returns the bytes it has read; it returns fewer than
  \<open>n\<close> only at the end of the file or on an error, and sets the indicator that applies;
  a request for no bytes leaves the stream as it is. \<open>fread_log\<close> is not part of the
  stream: it records, for every call, the number of bytes asked for and returned, so
  that a theorem can say which calls were made.
\<close>

record rfile =
  unread :: "byte list"
  fault_in :: "nat option"
  eof_flag :: bool
  err_flag :: bool
  fread_log :: "(nat \<times> nat) list"

definition fread :: "rfile \<Rightarrow> nat \<Rightarrow> byte list \<times> rfile" where
  "fread f n =
     (let readable = (case fault_in f of None \<Rightarrow> unread f | Some k \<Rightarrow> take k (unread f));
          broken = (case fault_in f of None \<Rightarrow> False | Some k \<Rightarrow> k < length (unread f));
          got = take n readable;
          short = (length got < n)
      in (got,
          f\<lparr>unread := drop (length got) (unread f),
            fault_in := map_option (\<lambda>k. k - length got) (fault_in f),
            eof_flag := (if short \<and> \<not> broken then True else eof_flag f),
            err_flag := (if short \<and> broken then True else err_flag f),
            fread_log := fread_log f @ [(n, length got)]\<rparr>))"

definition feof :: "rfile \<Rightarrow> int" where
  "feof f = (if eof_flag f then 1 else 0)"

definition ferror :: "rfile \<Rightarrow> bool" where
  "ferror f = err_flag f"

text \<open>
  A file open for writing holds the bytes written so far. \<^verbatim>\<open>fwrite(ptr, 1, n, file)\<close>
  returns the number of bytes it has written, which is less than \<open>n\<close> when the device
  does not take them all; as for the socket, a plan gives the bound of each coming call.
\<close>

record wfile =
  written :: "byte list"
  fwrite_plan :: "nat list"

definition fwrite :: "wfile \<Rightarrow> byte list \<Rightarrow> nat \<times> wfile" where
  "fwrite f bs =
     (case fwrite_plan f of
        [] \<Rightarrow> (length bs, f\<lparr>written := written f @ bs\<rparr>)
      | k # ks \<Rightarrow>
          (let n = min k (length bs)
           in (n, f\<lparr>written := written f @ take n bs, fwrite_plan := ks\<rparr>)))"

subsection \<open>The job and its buffers\<close>

text \<open>
  Modelled from the spec: \<^verbatim>\<open>librsync.h\<close> and the library behind it (\<^verbatim>\<open>rs_result\<close>,
  \<^verbatim>\<open>rs_buffers_t\<close>, \<^verbatim>\<open>rs_job_iter\<close>) are not among the sources. The spec treats the
  job as an opaque state machine: one step consumes bytes from the front of the input
  window, writes bytes to the back of the output window and returns a status. The
  sources tell \<^verbatim>\<open>RS_DONE\<close> and \<^verbatim>\<open>RS_BLOCKED\<close> from every other result, which is
  \<open>RS_FAILED\<close> here.
\<close>

datatype rs_result = RS_DONE | RS_BLOCKED | RS_FAILED

text \<open>The fields of \<^verbatim>\<open>rs_buffers_t\<close> the sources use. \<open>next_in\<close> and \<open>next_out\<close> are
  pointers into \<^verbatim>\<open>in_buf\<close> and \<^verbatim>\<open>out_buf\<close>: the model keeps their offsets.\<close>

record rs_buffers =
  next_in :: nat
  avail_in :: nat
  eof_in :: int
  next_out :: nat
  avail_out :: nat

text \<open>
  A job is a state of any type \<open>'j\<close> and a step function: from the state, the bytes of
  the input window, \<open>eof_in\<close> and \<open>avail_out\<close> it gives the result, the number of
  bytes consumed, the bytes produced and the next state.
\<close>

type_synonym 'j job_iter = "'j \<Rightarrow> byte list \<Rightarrow> int \<Rightarrow> nat \<Rightarrow> rs_result \<times> nat \<times> byte list \<times> 'j"

text \<open>
  The state of one pump: the local variables \<open>job\<close>, \<open>bufs\<close> and \<open>res\<close>, the static
  arrays \<open>in_buf\<close> and \<open>out_buf\<close>, the socket, the file read (\<^verbatim>\<open>file\<close> in
  \<^verbatim>\<open>send_signature\<close> and \<^verbatim>\<open>send_delta\<close>) and the file written (\<^verbatim>\<open>new\<close> in
  \<^verbatim>\<open>recv_delta_and_patch_file\<close>; the file \<^verbatim>\<open>old\<close> is read by the job alone and is part
  of its state). \<open>produced\<close> is not a variable of the program: it collects every byte
  the job has written to the output window.
\<close>

record 'j pump =
  job :: 'j
  bufs :: rs_buffers
  res :: rs_result
  in_buf :: "byte list"
  out_buf :: "byte list"
  sock :: socket
  infile :: rfile
  newfile :: wfile
  produced :: "byte list"

text \<open>The input window: the \<open>avail_in\<close> bytes at \<open>next_in\<close>.\<close>

definition window :: "'j pump \<Rightarrow> byte list" where
  "window st = take (avail_in (bufs st)) (drop (next_in (bufs st)) (in_buf st))"

text \<open>\<^verbatim>\<open>res = rs_job_iter(job, &bufs)\<close>\<close>

definition rs_job_iter :: "'j job_iter \<Rightarrow> 'j pump \<Rightarrow> 'j pump" where
  "rs_job_iter it st =
     (let b = bufs st;
          (r, used, out, j) = it (job st) (window st) (eof_in b) (avail_out b)
      in st\<lparr>job := j, res := r,
            bufs := b\<lparr>next_in := next_in b + used, avail_in := avail_in b - used,
                      next_out := next_out b + length out,
                      avail_out := avail_out b - length out\<rparr>,
            out_buf := store_bytes (out_buf st) (next_out b) out,
            produced := produced st @ out\<rparr>)"

subsection \<open>Loops\<close>

text \<open>
  One pass through the body of a loop either goes on to the next pass or leaves the
  function. \<^verbatim>\<open>do { ... } while (res != RS_DONE)\<close> may run forever, so the loop takes
  fuel: \<open>None\<close> says that the fuel did not suffice.
\<close>

datatype 'a flow = Next 'a | Exit outcome 'a

definition and_then :: "'a flow \<Rightarrow> ('a \<Rightarrow> 'a flow) \<Rightarrow> 'a flow" where
  "and_then m f = (case m of Next s \<Rightarrow> f s | Exit r s \<Rightarrow> Exit r s)"

fun do_while :: "('a \<Rightarrow> 'a flow) \<Rightarrow> nat \<Rightarrow> 'a \<Rightarrow> (outcome \<times> 'a) option" where
  "do_while body 0 st = None"
| "do_while body (Suc n) st =
     (case body st of Exit r s \<Rightarrow> Some (r, s) | Next s \<Rightarrow> do_while body n s)"

subsection \<open>The phases the pumps share\<close>

text \<open>
  The four pumps are written out one by one in the sources; where their text is the
  same, the model has one definition. \<open>cap\<close> stands for \<^verbatim>\<open>sizeof(in_buf)\<close> and
  \<^verbatim>\<open>sizeof(out_buf)\<close>, which is \<open>BUFFER_SIZE\<close> in the program.

  The step, in all four:
  \<^verbatim>\<open>res = rs_job_iter(job, &bufs); if (res != RS_DONE && res != RS_BLOCKED) return -1;\<close>
\<close>

definition iterate_job :: "'j job_iter \<Rightarrow> 'j pump \<Rightarrow> 'j pump flow" where
  "iterate_job it st =
     (let st = rs_job_iter it st
      in if res st \<noteq> RS_DONE \<and> res st \<noteq> RS_BLOCKED then Exit (Return (- 1)) st
         else Next st)"

text \<open>
  The drain of \<^verbatim>\<open>send_signature\<close> and \<^verbatim>\<open>send_delta\<close>:
  \<^verbatim>\<open>present = bufs.next_out - out_buf; if (present > 0) { ret = send_message(sock,
  out_buf, present, bufs.eof_in); if (ret == -1) return -1; bufs.next_out = out_buf;
  bufs.avail_out = sizeof(out_buf); }\<close>
\<close>

definition drain_socket :: "nat \<Rightarrow> 'j pump \<Rightarrow> 'j pump flow" where
  "drain_socket cap st =
     (let b = bufs st;
          present = next_out b
      in if present > 0 then
           (case send_message (sock st) (out_buf st) present (eof_in b) of
              (Assert_failed a, sk) \<Rightarrow> Exit (Assert_failed a) (st\<lparr>sock := sk\<rparr>)
            | (Return ret, sk) \<Rightarrow>
                if ret = - 1 then Exit (Return (- 1)) (st\<lparr>sock := sk\<rparr>)
                else Next (st\<lparr>sock := sk, bufs := b\<lparr>next_out := 0, avail_out := cap\<rparr>\<rparr>))
         else Next st)"

text \<open>
  The refill of \<^verbatim>\<open>recv_signature\<close> and \<^verbatim>\<open>recv_delta_and_patch_file\<close>:
  \<^verbatim>\<open>if (bufs.avail_in > 0) memmove(in_buf, bufs.next_in, bufs.avail_in);
  ret = recv_message(sock, in_buf + bufs.avail_in, &n_bytes, &bufs.eof_in);
  if (ret == -1) return -1; bufs.next_in = in_buf; bufs.avail_in += n_bytes;\<close>
  \<open>n_bytes\<close> has no value before the call; the model gives it 0, which is never read.
\<close>

definition recv_refill :: "'j pump \<Rightarrow> 'j pump flow" where
  "recv_refill st =
     (let b = bufs st;
          mem = (if avail_in b > 0 then memmove_front (in_buf st) (next_in b) (avail_in b)
                 else in_buf st);
          (ret, sk, mem, n_bytes, eof) = recv_message (sock st) mem (avail_in b) 0 (eof_in b);
          b = b\<lparr>eof_in := eof\<rparr>;
          st = st\<lparr>sock := sk, in_buf := mem, bufs := b\<rparr>
      in if ret = - 1 then Exit (Return (- 1)) st
         else Next (st\<lparr>bufs := b\<lparr>next_in := 0, avail_in := avail_in b + n_bytes\<rparr>\<rparr>))"

text \<open>\<^verbatim>\<open>rs_buffers_t bufs = { 0 }; bufs.next_in = in_buf; bufs.next_out = out_buf;
  bufs.avail_out = sizeof(out_buf);\<close>\<close>

definition init_bufs :: "nat \<Rightarrow> rs_buffers" where
  "init_bufs cap = \<lparr>next_in = 0, avail_in = 0, eof_in = 0, next_out = 0, avail_out = cap\<rparr>"

subsection \<open>\<^verbatim>\<open>send_signature\<close> (client.c)\<close>

text \<open>
  The refill:
  \<^verbatim>\<open>if (bufs.avail_in > 0) memmove(in_buf, bufs.next_in, bufs.avail_in);
  n_bytes = fread(in_buf + bufs.avail_in, 1, sizeof(in_buf) - bufs.avail_in, file);
  if (n_bytes == 0) { if (ferror(file)) return -1;
  bufs.eof_in = feof(file); assert(bufs.eof_in != 0); }
  bufs.next_in = in_buf; bufs.avail_in += n_bytes;\<close>
\<close>

definition send_signature_refill :: "nat \<Rightarrow> 'j pump \<Rightarrow> 'j pump flow" where
  "send_signature_refill cap st =
     (let b = bufs st;
          mem = (if avail_in b > 0 then memmove_front (in_buf st) (next_in b) (avail_in b)
                 else in_buf st);
          (got, f) = fread (infile st) (cap - avail_in b);
          n_bytes = length got;
          st = st\<lparr>in_buf := store_bytes mem (avail_in b) got, infile := f\<rparr>
      in if n_bytes = 0 then
           (if ferror f then Exit (Return (- 1)) st
            else (let b = b\<lparr>eof_in := feof f\<rparr>
                  in if eof_in b \<noteq> 0 then
                       Next (st\<lparr>bufs := b\<lparr>next_in := 0, avail_in := avail_in b + n_bytes\<rparr>\<rparr>)
                     else Exit (Assert_failed Eof_reached) (st\<lparr>bufs := b\<rparr>)))
         else Next (st\<lparr>bufs := b\<lparr>next_in := 0, avail_in := avail_in b + n_bytes\<rparr>\<rparr>))"

definition send_signature_iteration :: "nat \<Rightarrow> 'j job_iter \<Rightarrow> 'j pump \<Rightarrow> 'j pump flow" where
  "send_signature_iteration cap it st =
     and_then (if eof_in (bufs st) = 0 then send_signature_refill cap st else Next st)
       (\<lambda>st. and_then (iterate_job it st)
         (\<lambda>st. and_then (drain_socket cap st)
           (\<lambda>st. if res st \<noteq> RS_DONE then Next st else Exit (Return 0) st)))"

text \<open>
  The function. \<open>st\<close> holds what the calls before the loop give: the file opened, the
  job begun, the socket, the two arrays; \<open>args\<close> is the result of \<^verbatim>\<open>rs_sig_args\<close>.
\<close>

definition send_signature ::
  "'j job_iter \<Rightarrow> rs_result \<Rightarrow> nat \<Rightarrow> 'j pump \<Rightarrow> (outcome \<times> 'j pump) option" where
  "send_signature it args fuel st =
     (if args \<noteq> RS_DONE then Some (Return (- 1), st)
      else do_while (send_signature_iteration BUFFER_SIZE it) fuel
             (st\<lparr>bufs := init_bufs BUFFER_SIZE\<rparr>))"

subsection \<open>\<^verbatim>\<open>send_delta\<close> (server.c)\<close>

text \<open>
  The refill is that of \<^verbatim>\<open>send_signature\<close> without the assertion:
  \<^verbatim>\<open>if (n_bytes == 0) { if (ferror(file)) return -1; bufs.eof_in = feof(file); }\<close>
\<close>

definition send_delta_refill :: "nat \<Rightarrow> 'j pump \<Rightarrow> 'j pump flow" where
  "send_delta_refill cap st =
     (let b = bufs st;
          mem = (if avail_in b > 0 then memmove_front (in_buf st) (next_in b) (avail_in b)
                 else in_buf st);
          (got, f) = fread (infile st) (cap - avail_in b);
          n_bytes = length got;
          st = st\<lparr>in_buf := store_bytes mem (avail_in b) got, infile := f\<rparr>
      in if n_bytes = 0 then
           (if ferror f then Exit (Return (- 1)) st
            else (let b = b\<lparr>eof_in := feof f\<rparr>
                  in Next (st\<lparr>bufs := b\<lparr>next_in := 0, avail_in := avail_in b + n_bytes\<rparr>\<rparr>)))
         else Next (st\<lparr>bufs := b\<lparr>next_in := 0, avail_in := avail_in b + n_bytes\<rparr>\<rparr>))"

definition send_delta_iteration :: "nat \<Rightarrow> 'j job_iter \<Rightarrow> 'j pump \<Rightarrow> 'j pump flow" where
  "send_delta_iteration cap it st =
     and_then (if eof_in (bufs st) = 0 then send_delta_refill cap st else Next st)
       (\<lambda>st. and_then (iterate_job it st)
         (\<lambda>st. and_then (drain_socket cap st)
           (\<lambda>st. if res st \<noteq> RS_DONE then Next st else Exit (Return 0) st)))"

text \<open>\<open>built\<close> is the result of \<^verbatim>\<open>rs_build_hash_table\<close>.\<close>

definition send_delta ::
  "'j job_iter \<Rightarrow> rs_result \<Rightarrow> nat \<Rightarrow> 'j pump \<Rightarrow> (outcome \<times> 'j pump) option" where
  "send_delta it built fuel st =
     (if built \<noteq> RS_DONE then Some (Return (- 1), st)
      else do_while (send_delta_iteration BUFFER_SIZE it) fuel
             (st\<lparr>bufs := init_bufs BUFFER_SIZE\<rparr>))"

subsection \<open>\<^verbatim>\<open>recv_signature\<close> (server.c)\<close>

text \<open>The loop has no drain, and the buffers have no output window:
  \<^verbatim>\<open>rs_buffers_t bufs = { 0 }; bufs.next_in = in_buf;\<close>\<close>

definition recv_signature_iteration :: "'j job_iter \<Rightarrow> 'j pump \<Rightarrow> 'j pump flow" where
  "recv_signature_iteration it st =
     and_then (if eof_in (bufs st) = 0 then recv_refill st else Next st)
       (\<lambda>st. and_then (iterate_job it st)
         (\<lambda>st. if res st \<noteq> RS_DONE then Next st else Exit (Return 0) st))"

definition recv_signature :: "'j job_iter \<Rightarrow> nat \<Rightarrow> 'j pump \<Rightarrow> (outcome \<times> 'j pump) option" where
  "recv_signature it fuel st =
     do_while (recv_signature_iteration it) fuel (st\<lparr>bufs := init_bufs 0\<rparr>)"

subsection \<open>\<^verbatim>\<open>recv_delta_and_patch_file\<close> (client.c)\<close>

text \<open>
  The drain:
  \<^verbatim>\<open>present = bufs.next_out - out_buf; if (present > 0) { n_bytes = fwrite(out_buf, 1,
  present, new); if (n_bytes == 0) return -1; bufs.next_out = out_buf;
  bufs.avail_out = sizeof(out_buf); }\<close>
\<close>

definition drain_file :: "nat \<Rightarrow> 'j pump \<Rightarrow> 'j pump flow" where
  "drain_file cap st =
     (let b = bufs st;
          present = next_out b
      in if present > 0 then
           (let (n_bytes, f) = fwrite (newfile st) (take present (out_buf st))
            in if n_bytes = 0 then Exit (Return (- 1)) (st\<lparr>newfile := f\<rparr>)
               else Next (st\<lparr>newfile := f, bufs := b\<lparr>next_out := 0, avail_out := cap\<rparr>\<rparr>))
         else Next st)"

definition recv_delta_and_patch_file_iteration ::
  "nat \<Rightarrow> 'j job_iter \<Rightarrow> 'j pump \<Rightarrow> 'j pump flow" where
  "recv_delta_and_patch_file_iteration cap it st =
     and_then (if eof_in (bufs st) = 0 then recv_refill st else Next st)
       (\<lambda>st. and_then (iterate_job it st)
         (\<lambda>st. and_then (drain_file cap st)
           (\<lambda>st. if res st \<noteq> RS_DONE then Next st else Exit (Return 0) st)))"

text \<open>\<open>name_fits\<close> says that \<^verbatim>\<open>snprintf\<close> could write the name of the new file.\<close>

definition recv_delta_and_patch_file ::
  "'j job_iter \<Rightarrow> bool \<Rightarrow> nat \<Rightarrow> 'j pump \<Rightarrow> (outcome \<times> 'j pump) option" where
  "recv_delta_and_patch_file it name_fits fuel st =
     (if name_fits then
        do_while (recv_delta_and_patch_file_iteration BUFFER_SIZE it) fuel
          (st\<lparr>bufs := init_bufs BUFFER_SIZE\<rparr>)
      else Some (Return (- 1), st))"

section \<open>Vocabulary of the properties\<close>

text \<open>The header \<^verbatim>\<open>send_message\<close> computes for a payload of \<open>len\<close> bytes, and the
  bytes of a frame (a payload and its flag) on the wire.\<close>

definition frame_header :: "nat \<Rightarrow> int \<Rightarrow> 16 word" where
  "frame_header len eof =
     (if eof \<noteq> 0 then word_of_nat (push_bit 1 len) OR 1 else word_of_nat (push_bit 1 len))"

definition frame_bytes :: "byte list \<times> int \<Rightarrow> byte list" where
  "frame_bytes fr = htons (frame_header (length (fst fr)) (snd fr)) @ fst fr"

text \<open>
  What the library promises of a job: a step consumes no more than the window holds
  and writes no more than \<open>avail_out\<close> bytes.
\<close>

definition job_contract :: "'j job_iter \<Rightarrow> bool" where
  "job_contract it =
     (\<forall>j w e a. case it j w e a of (r, used, out, j') \<Rightarrow> used \<le> length w \<and> length out \<le> a)"

text \<open>The output window is empty: this is how every pass of a sending loop finds it.\<close>

definition out_ready :: "nat \<Rightarrow> 'j pump \<Rightarrow> bool" where
  "out_ready cap st = (next_out (bufs st) = 0 \<and> avail_out (bufs st) = cap)"

text \<open>
  The calls made to the source so far (\<^verbatim>\<open>fread\<close> on the file, \<^verbatim>\<open>read\<close> on the socket),
  and the relation between two states of a run when no such call was made between them
  and \<open>eof_in\<close> was not touched.
\<close>

definition pulls :: "'j pump \<Rightarrow> nat \<times> nat" where
  "pulls st = (length (fread_log (infile st)), read_calls (sock st))"

definition no_pull :: "'j pump \<Rightarrow> 'j pump \<Rightarrow> bool" where
  "no_pull st st' =
     (eof_in (bufs st') = eof_in (bufs st) \<and> infile st' = infile st
      \<and> read_calls (sock st') = read_calls (sock st) \<and> inbox (sock st') = inbox (sock st)
      \<and> read_plan (sock st') = read_plan (sock st))"

text \<open>
  What makes a job come to its end, for a loop whose output window has \<open>cap\<close> bytes:
  it never fails, and a step that is not the last one consumes at least one byte or
  lowers the measure \<open>m\<close> of the job's state, unless it had nothing to work on (an
  empty window before the end of the input). \<open>job_eats_full\<close> says that a step that is
  not the last one takes at least one byte of a window that is full.
\<close>

definition job_live :: "nat \<Rightarrow> ('j \<Rightarrow> nat) \<Rightarrow> 'j job_iter \<Rightarrow> bool" where
  "job_live cap m it =
     (\<forall>j w e. case it j w e cap of
        (r, used, out, j') \<Rightarrow>
          r \<noteq> RS_FAILED
          \<and> (r = RS_DONE \<or> (w = [] \<and> e = 0) \<or> 0 < used \<or> m j' < m j))"

definition job_eats_full :: "nat \<Rightarrow> 'j job_iter \<Rightarrow> bool" where
  "job_eats_full cap it =
     (\<forall>j w e. case it j w e cap of
        (r, used, out, j') \<Rightarrow> r = RS_DONE \<or> length w < cap \<or> 0 < used)"

text \<open>
  What the socket has received since it held \<open>base\<close>: the bytes of a sequence of
  frames whose payloads, one after the other, are all the bytes the job has written.
\<close>

definition delivered :: "byte list \<Rightarrow> 'j pump \<Rightarrow> bool" where
  "delivered base st =
     (\<exists>frames. outbox (sock st) = base @ concat (map frame_bytes frames)
        \<and> concat (map fst frames) = produced st)"

text \<open>
  What holds at the start of every pass of a sending loop that runs without errors, and
  the work that is left: the bytes of the file not yet consumed, then the measure of the
  job.
\<close>

definition pump_inv :: "nat \<Rightarrow> byte list \<Rightarrow> 'j pump \<Rightarrow> bool" where
  "pump_inv cap base st =
     (next_in (bufs st) + avail_in (bufs st) \<le> cap \<and> length (in_buf st) = cap
      \<and> out_ready cap st \<and> write_plan (sock st) = []
      \<and> fault_in (infile st) = None \<and> err_flag (infile st) = False
      \<and> delivered base st)"

definition work_left :: "('j \<Rightarrow> nat) \<Rightarrow> 'j pump \<Rightarrow> nat \<times> nat" where
  "work_left m st = (length (unread (infile st)) + avail_in (bufs st), m (job st))"

subsection \<open>Concrete inputs\<close>

text \<open>A socket on which nothing has happened and whose calls all succeed in full.\<close>

definition quiet_socket :: socket where
  "quiet_socket = \<lparr>inbox = [], read_plan = [], read_calls = 0, outbox = [], write_plan = []\<rparr>"

text \<open>
  A file just opened, a file just created, and the state in which a pump function is
  entered: the job in its first state, the arrays as the program starts with them.
\<close>

definition opened :: "byte list \<Rightarrow> rfile" where
  "opened bs = \<lparr>unread = bs, fault_in = None, eof_flag = False, err_flag = False, fread_log = []\<rparr>"

definition created :: wfile where
  "created = \<lparr>written = [], fwrite_plan = []\<rparr>"

definition entry :: "'j \<Rightarrow> socket \<Rightarrow> rfile \<Rightarrow> wfile \<Rightarrow> 'j pump" where
  "entry j sk f nf = \<lparr>job = j, bufs = init_bufs 0, res = RS_DONE,
     in_buf = replicate BUFFER_SIZE 0, out_buf = replicate BUFFER_SIZE 0,
     sock = sk, infile = f, newfile = nf, produced = []\<rparr>"

text \<open>
  Three jobs. \<open>flusher\<close> takes all its input and writes one byte in each of two steps,
  the second of which is the last. \<open>waiting\<close> writes nothing; its first step consumes
  nothing, as a job does that waits for more input or has to get rid of output first,
  the later ones take the whole window, and it is done once the input has ended.
  \<open>copier\<close> copies its input to the output, as much as fits.
\<close>

definition flusher :: "nat job_iter" where
  "flusher j w e a = (if j = 0 then (RS_BLOCKED, length w, [1], 1) else (RS_DONE, length w, [2], j))"

definition waiting :: "nat job_iter" where
  "waiting j w e a =
     (if j = 0 then (RS_BLOCKED, 0, [], 1)
      else (if e \<noteq> 0 then RS_DONE else RS_BLOCKED, length w, [], j))"

definition copier :: "nat job_iter" where
  "copier j w e a =
     (if e \<noteq> 0 \<and> length w \<le> a then RS_DONE else RS_BLOCKED, min (length w) a, take a w, j)"

text \<open>
  \<open>header_first\<close> writes one byte of its own before it consumes anything, and from
  then on copies its input to the output; it is done when the input has ended and
  nothing is left in the window.
\<close>

definition header_first :: "nat job_iter" where
  "header_first j w e a =
     (if j = 0 then (RS_BLOCKED, 0, [1], 1)
      else (if e \<noteq> 0 \<and> length w \<le> a then RS_DONE else RS_BLOCKED,
            min (length w) a, take a w, j))"

text \<open>States of the sending and the receiving loop before and after a refill.\<close>

definition at_end_of_file :: "nat pump" where
  "at_end_of_file = (entry 0 quiet_socket (opened []) created)\<lparr>bufs := init_bufs BUFFER_SIZE\<rparr>"

definition end_seen :: "nat pump" where
  "end_seen = at_end_of_file
     \<lparr>infile := (opened [])\<lparr>eof_flag := True, fread_log := [(BUFFER_SIZE, 0)]\<rparr>,
      bufs := (init_bufs BUFFER_SIZE)\<lparr>eof_in := 1\<rparr>\<rparr>"

definition last_frame_waiting :: "nat pump" where
  "last_frame_waiting = entry 0 (quiet_socket\<lparr>inbox := [0, 1]\<rparr>) (opened []) created"

definition last_frame_taken :: "nat pump" where
  "last_frame_taken = last_frame_waiting
     \<lparr>sock := quiet_socket\<lparr>read_calls := 1\<rparr>, bufs := (init_bufs 0)\<lparr>eof_in := 1\<rparr>\<rparr>"

definition tail_left :: "nat pump" where
  "tail_left = (entry 0 quiet_socket (opened [7, 8, 6]) created)
     \<lparr>bufs := \<lparr>next_in = 2, avail_in = 2, eof_in = 0, next_out = 0, avail_out = BUFFER_SIZE\<rparr>,
      in_buf := [9, 9, 1, 2] @ replicate 32763 0\<rparr>"

definition tail_kept :: "nat pump" where
  "tail_kept = tail_left
     \<lparr>bufs := \<lparr>next_in = 0, avail_in = 5, eof_in = 0, next_out = 0, avail_out = BUFFER_SIZE\<rparr>,
      in_buf := [1, 2, 7, 8, 6] @ replicate 32762 0,
      infile := (opened [])\<lparr>eof_flag := True, fread_log := [(32765, 3)]\<rparr>\<rparr>"

text \<open>The receiving loop before and after a refill, with a tail of two bytes left over.\<close>

definition tail_left_recv :: "nat pump" where
  "tail_left_recv = (entry 0 (quiet_socket\<lparr>inbox := [0, 6, 7, 8, 6, 42]\<rparr>) (opened []) created)
     \<lparr>bufs := \<lparr>next_in = 2, avail_in = 2, eof_in = 0, next_out = 0, avail_out = 0\<rparr>,
      in_buf := [9, 9, 1, 2] @ replicate 32763 0\<rparr>"

definition tail_kept_recv :: "nat pump" where
  "tail_kept_recv = tail_left_recv
     \<lparr>bufs := \<lparr>next_in = 0, avail_in = 5, eof_in = 0, next_out = 0, avail_out = 0\<rparr>,
      in_buf := [1, 2, 7, 8, 6] @ replicate 32762 0,
      sock := quiet_socket\<lparr>inbox := [42], read_calls := 2\<rparr>\<rparr>"

text \<open>A sending loop with windows of four bytes and a file of ten.\<close>

definition small_pump :: "nat pump" where
  "small_pump = \<lparr>job = 0, bufs = init_bufs 4, res = RS_DONE,
     in_buf = replicate 4 0, out_buf = replicate 4 0,
     sock = quiet_socket, infile = opened [1, 2, 3, 4, 5, 6, 7, 8, 9, 10], newfile = created,
     produced = []\<rparr>"

section \<open>Framing\<close>

lemma BUFFER_SIZE_eq: "BUFFER_SIZE = 32767"
  by (simp add: BUFFER_SIZE_def UINT16_MAX_def drop_bit_eq_div)

lemma header_limit: "drop_bit 1 UINT16_MAX = 32767"
  by (simp add: UINT16_MAX_def drop_bit_eq_div)

lemma ntohs_htons: "ntohs (htons h) = h"
  unfolding htons_def
  apply simp
  apply (rule bit_word_eqI)
  apply (auto simp add: bit_simps)
  done

lemma ntohs_htons_append: "ntohs (htons h @ bs) = h"
  using ntohs_htons [of h] by (simp add: htons_def)

lemma length_htons: "length (htons h) = 2"
  by (simp add: htons_def)

lemma header_plain: "(word_of_nat (push_bit 1 len) :: 16 word) = word_of_nat (2 * len)"
  by (simp add: push_bit_eq_mult)

lemma header_flag: "(word_of_nat (push_bit 1 len) :: 16 word) OR 1 = word_of_nat (2 * len + 1)"
  by (simp add: or_one_eq push_bit_eq_mult)

lemma unat_small: "n < 65536 \<Longrightarrow> unat (word_of_nat n :: 16 word) = n"
  by (simp add: unat_of_nat)

lemma and1_odd: "odd w \<Longrightarrow> (w :: 16 word) AND 1 = 1"
  by (simp add: and_one_eq mod_2_eq_odd)

lemma and1_even: "even w \<Longrightarrow> (w :: 16 word) AND 1 = 0"
  by (simp add: and_one_eq mod_2_eq_odd)

lemma frame_header_len:
  assumes "len \<le> 32767"
  shows "unat (drop_bit 1 (frame_header len eof)) = len"
proof (cases "eof = 0")
  case True
  have "unat (word_of_nat (2 * len) :: 16 word) = 2 * len"
    using assms by (intro unat_small) arith
  then have "unat (drop_bit 1 (word_of_nat (push_bit 1 len) :: 16 word)) = len"
    unfolding header_plain unat_drop_bit_eq by (simp add: drop_bit_eq_div)
  with True show ?thesis by (simp only: frame_header_def if_False simp_thms)
next
  case False
  have "unat (word_of_nat (2 * len + 1) :: 16 word) = 2 * len + 1"
    using assms by (intro unat_small) arith
  then have "unat (drop_bit 1 ((word_of_nat (push_bit 1 len) :: 16 word) OR 1)) = len"
    unfolding header_flag unat_drop_bit_eq by (simp add: drop_bit_eq_div)
  with False show ?thesis by (simp only: frame_header_def if_True simp_thms)
qed

lemma frame_header_len_Suc:
  "len \<le> 32767 \<Longrightarrow> unat (drop_bit (Suc 0) (frame_header len eof)) = len"
  using frame_header_len [of len eof] by simp

lemma frame_header_eof: "uint (frame_header len eof AND 1) = (if eof \<noteq> 0 then 1 else 0)"
proof (cases "eof = 0")
  case True
  have "(word_of_nat (2 * len) :: 16 word) AND 1 = 0" by (rule and1_even) simp
  then have "(word_of_nat (push_bit 1 len) :: 16 word) AND 1 = 0"
    by (simp only: header_plain)
  with True show ?thesis by (simp only: frame_header_def if_False simp_thms unsigned_0)
next
  case False
  have "(word_of_nat (2 * len + 1) :: 16 word) AND 1 = 1" by (rule and1_odd) simp
  then have "((word_of_nat (push_bit 1 len) :: 16 word) OR 1) AND 1 = 1"
    by (simp only: header_flag)
  with False show ?thesis by (simp only: frame_header_def if_True simp_thms unsigned_1)
qed

lemma store_bytes_nothing: "store_bytes mem off [] = mem"
  by (simp add: store_bytes_def)

lemma sock_write_all:
  "write_plan s = [] \<Longrightarrow> sock_write s bs = (int (length bs), s\<lparr>outbox := outbox s @ bs\<rparr>)"
  by (simp add: sock_write_def)

lemma sock_read_all:
  "read_plan s = [] \<Longrightarrow> n \<le> length (inbox s) \<Longrightarrow>
   sock_read s n = (int n, take n (inbox s),
     s\<lparr>inbox := drop n (inbox s), read_calls := Suc (read_calls s)\<rparr>)"
  by (simp add: sock_read_def Let_def min_def)

lemma header_limit_Suc: "drop_bit (Suc 0) UINT16_MAX = 32767"
  by (simp add: UINT16_MAX_def drop_bit_eq_div)

lemma send_message_sent:
  assumes "write_plan s = []" "len \<le> 32767" "len \<le> length msg"
  shows "send_message s msg len eof =
    (Return 0, s\<lparr>outbox := outbox s @ htons (frame_header len eof) @ take len msg\<rparr>)"
  using assms
  by (simp add: send_message_def header_limit header_limit_Suc sock_write_all Let_def
      length_htons frame_header_def)

lemma recv_message_frame:
  assumes "read_plan r = []" "inbox r = htons h @ payload @ later"
    "unat (drop_bit 1 h) = length payload"
  shows "recv_message r mem off l0 e0 =
    (0, r\<lparr>inbox := later, read_calls := read_calls r + (if payload = [] then 1 else 2)\<rparr>,
     store_bytes mem off payload, length payload, uint (h AND 1))"
proof -
  have hd: "sock_read r 2 = (2, htons h,
      r\<lparr>inbox := payload @ later, read_calls := Suc (read_calls r)\<rparr>)"
    using assms(1,2) by (simp add: sock_read_all length_htons)
  show ?thesis
  proof (cases "payload = []")
    case True
    with assms(3) hd show ?thesis
      by (simp add: recv_message_def ntohs_htons store_bytes_nothing)
  next
    case False
    then have pos: "0 < length payload" by simp
    have "sock_read (r\<lparr>inbox := payload @ later, read_calls := Suc (read_calls r)\<rparr>)
        (length payload) = (int (length payload), payload,
        r\<lparr>inbox := later, read_calls := Suc (Suc (read_calls r))\<rparr>)"
      using assms(1) by (simp add: sock_read_all)
    with False pos assms(3) hd show ?thesis
      by (simp add: recv_message_def ntohs_htons)
  qed
qed

lemma store_bytes_read_back:
  "off \<le> length mem \<Longrightarrow> take (length bs) (drop off (store_bytes mem off bs)) = bs"
  by (simp add: store_bytes_def)

lemma length_store_bytes:
  "off \<le> length mem \<Longrightarrow> length (store_bytes mem off bs) = max (length mem) (off + length bs)"
  by (simp add: store_bytes_def)

subsection \<open>Claim C2: a frame survives the round trip\<close>

text \<open>
  Claim C2. For every payload length in \<open>[0, 32767]\<close> and every flag, what
  \<^verbatim>\<open>send_message\<close> writes (\<open>wire\<close>: the two header bytes and the payload), read by
  \<^verbatim>\<open>recv_message\<close> on the other side, gives back the length, the payload bytes (stored
  at the place \<open>msg\<close> points to, and read back from there) and the flag (1 for any
  nonzero \<open>eof\<close>, else 0). Both sockets transfer in full; what follows the frame in the
  inbox (\<open>later\<close>) stays there.
\<close>

theorem frame_round_trip:
  assumes "len \<le> 32767" and "len \<le> length msg"
    and "write_plan s = []" and "read_plan r = []"
    and "outbox (snd (send_message s msg len eof)) = outbox s @ wire"
    and "inbox r = wire @ later"
    and "off \<le> length mem"
  shows "fst (send_message s msg len eof) = Return 0
    \<and> recv_message r mem off l0 e0 =
        (0, r\<lparr>inbox := later, read_calls := read_calls r + (if len = 0 then 1 else 2)\<rparr>,
         store_bytes mem off (take len msg), len, if eof \<noteq> 0 then 1 else 0)
    \<and> take len (drop off (store_bytes mem off (take len msg))) = take len msg"
proof -
  have sent: "send_message s msg len eof =
      (Return 0, s\<lparr>outbox := outbox s @ htons (frame_header len eof) @ take len msg\<rparr>)"
    using assms(3,1,2) by (rule send_message_sent)
  with assms(5) have wire: "wire = htons (frame_header len eof) @ take len msg"
    by simp
  have len: "length (take len msg) = len" using assms(2) by simp
  have "recv_message r mem off l0 e0 =
      (0, r\<lparr>inbox := later,
             read_calls := read_calls r + (if take len msg = [] then 1 else 2)\<rparr>,
       store_bytes mem off (take len msg), length (take len msg),
       uint (frame_header len eof AND 1))"
    using assms(4,6) wire len
    by (intro recv_message_frame) (simp_all add: frame_header_len_Suc [OF assms(1)])
  moreover have "(take len msg = []) = (len = 0)" using len by (metis length_0_conv)
  moreover have "take len (drop off (store_bytes mem off (take len msg))) = take len msg"
    using store_bytes_read_back [OF assms(7), of "take len msg"] len by simp
  ultimately show ?thesis using sent len by (simp add: frame_header_eof)
qed

theorem frame_round_trip_witness:
  "fst (send_message quiet_socket [7, 8, 9] 3 1) = Return 0
   \<and> recv_message (quiet_socket\<lparr>inbox := [0, 7, 7, 8, 9, 42]\<rparr>) [1, 1, 1, 1, 1] 1 0 0 =
       (0, quiet_socket\<lparr>inbox := [42], read_calls := 2\<rparr>, [1, 7, 8, 9, 1], 3, 1)
   \<and> take 3 (drop 1 [1, 7, 8, 9, 1 :: byte]) = [7, 8, 9]"
proof -
  have sent: "outbox (snd (send_message quiet_socket [7, 8, 9] 3 1)) =
      outbox quiet_socket @ [0, 7, 7, 8, 9]"
    by (simp add: send_message_def sock_write_def quiet_socket_def htons_def header_limit_Suc)
  have "fst (send_message quiet_socket [7, 8, 9] 3 1) = Return 0
    \<and> recv_message (quiet_socket\<lparr>inbox := [0, 7, 7, 8, 9, 42]\<rparr>) [1, 1, 1, 1, 1] 1 0 0 =
        (0, (quiet_socket\<lparr>inbox := [0, 7, 7, 8, 9, 42]\<rparr>)\<lparr>inbox := [42],
          read_calls := read_calls (quiet_socket\<lparr>inbox := [0, 7, 7, 8, 9, 42]\<rparr>)
            + (if (3::nat) = 0 then 1 else 2)\<rparr>,
         store_bytes [1, 1, 1, 1, 1] 1 (take 3 [7, 8, 9]), 3, if (1::int) \<noteq> 0 then 1 else 0)
    \<and> take 3 (drop 1 (store_bytes [1, 1, 1, 1, 1] 1 (take 3 [7, 8, 9]))) = take 3 [7, 8, 9]"
    by (rule frame_round_trip [where wire = "[0, 7, 7, 8, 9]" and later = "[42]",
          OF _ _ _ _ sent])
      (simp_all add: quiet_socket_def)
  then show ?thesis by (simp add: store_bytes_def quiet_socket_def)
qed

subsection \<open>Claim C7: a payload that does not fit the header is refused\<close>

text \<open>
  Claim C7. \<^verbatim>\<open>send_message\<close> with a length above 32767 (32768, say) stops at its
  assertion before anything is written: the socket is as it was, so no header with a
  truncated length is ever sent. (The assertion is compiled in: the sources do not
  define \<^verbatim>\<open>NDEBUG\<close>.)
\<close>

theorem oversized_rejected:
  "32767 < len \<Longrightarrow> send_message s msg len eof = (Assert_failed Len_fits_header, s)"
  by (simp add: send_message_def header_limit_Suc)

theorem oversized_rejected_witness:
  "(32767::nat) < 32768 \<and> send_message quiet_socket (replicate 32768 0) 32768 0 =
     (Assert_failed Len_fits_header, quiet_socket)"
  using oversized_rejected [of 32768 quiet_socket "replicate 32768 0" 0] by simp

subsection \<open>Claim C9: the layout of the header\<close>

lemma frame_header_bit0: "bit (frame_header len eof) 0 = (eof \<noteq> 0)"
proof (cases "eof = 0")
  case True
  then have "frame_header len eof = word_of_nat (2 * len)"
    by (simp only: frame_header_def header_plain if_False simp_thms)
  with True show ?thesis by (simp add: bit_0)
next
  case False
  then have "frame_header len eof = word_of_nat (2 * len + 1)"
    by (simp only: frame_header_def header_flag if_True simp_thms)
  with False show ?thesis by (simp add: bit_0)
qed

lemma frame_header_bits:
  assumes "len \<le> 32767" "i < 15"
  shows "bit (frame_header len eof) (Suc i) = bit len i"
proof -
  have "unat (drop_bit 1 (frame_header len eof)) = len"
    using assms(1) by (rule frame_header_len)
  then have "bit len i = bit (unat (drop_bit 1 (frame_header len eof))) i" by simp
  also have "\<dots> = bit (drop_bit 1 (frame_header len eof)) i"
    by (simp add: bit_unsigned_iff)
  also have "\<dots> = bit (frame_header len eof) (Suc i)"
    by (simp add: bit_drop_bit_eq)
  finally show ?thesis by simp
qed

text \<open>
  Claim C9. The header \<open>h\<close> that \<^verbatim>\<open>send_message\<close> writes has the flag in bit 0 and
  the length in bits 1 to 15, and goes out high byte first, followed by the payload; for
  a length of 0 nothing follows the two header bytes. \<^verbatim>\<open>recv_message\<close> accepts a header
  whose length is 0: it returns 0 with length 0, reads once (the header) and leaves the
  memory and the bytes behind the header alone.
\<close>

theorem header_layout:
  assumes "len \<le> 32767" and "len \<le> length msg" and "write_plan s = []"
    and "read_plan r = []" and "inbox r = [hi, lo] @ later"
    and "drop_bit 1 (ntohs [hi, lo]) = 0"
  shows "(\<exists>h :: 16 word.
      outbox (snd (send_message s msg len eof)) =
        outbox s @ [ucast (drop_bit 8 h), ucast h] @ take len msg
      \<and> bit h 0 = (eof \<noteq> 0)
      \<and> (\<forall>i<15. bit h (Suc i) = bit len i)
      \<and> unat (drop_bit 1 h) = len
      \<and> (len = 0 \<longrightarrow> outbox (snd (send_message s msg len eof)) =
            outbox s @ [ucast (drop_bit 8 h), ucast h]))
    \<and> recv_message r mem off l0 e0 =
        (0, r\<lparr>inbox := later, read_calls := Suc (read_calls r)\<rparr>, mem, 0,
         uint (ntohs [hi, lo] AND 1))"
proof -
  let ?h = "frame_header len eof"
  have sent: "send_message s msg len eof =
      (Return 0, s\<lparr>outbox := outbox s @ htons ?h @ take len msg\<rparr>)"
    using assms(3,1,2) by (rule send_message_sent)
  have ob: "outbox (snd (send_message s msg len eof)) =
        outbox s @ [ucast (drop_bit 8 ?h), ucast ?h] @ take len msg"
    using sent by (simp add: htons_def)
  have empty: "len = 0 \<longrightarrow> outbox (snd (send_message s msg len eof)) =
            outbox s @ [ucast (drop_bit 8 ?h), ucast ?h]"
  proof
    assume "len = 0"
    with ob show "outbox (snd (send_message s msg len eof)) =
            outbox s @ [ucast (drop_bit 8 ?h), ucast ?h]" by simp
  qed
  have bits: "\<forall>i<15. bit ?h (Suc i) = bit len i"
    using frame_header_bits [OF assms(1)] by blast
  have first: "outbox (snd (send_message s msg len eof)) =
        outbox s @ [ucast (drop_bit 8 ?h), ucast ?h] @ take len msg
      \<and> bit ?h 0 = (eof \<noteq> 0)
      \<and> (\<forall>i<15. bit ?h (Suc i) = bit len i)
      \<and> unat (drop_bit 1 ?h) = len
      \<and> (len = 0 \<longrightarrow> outbox (snd (send_message s msg len eof)) =
            outbox s @ [ucast (drop_bit 8 ?h), ucast ?h])"
    using ob empty bits frame_header_bit0 [of len eof] frame_header_len [OF assms(1), of eof]
    by blast
  have hd: "sock_read r 2 = (2, [hi, lo], r\<lparr>inbox := later, read_calls := Suc (read_calls r)\<rparr>)"
    using assms(4,5) by (simp add: sock_read_all)
  have "unat (drop_bit 1 (ntohs [hi, lo])) = 0" using assms(6) by simp
  then have second: "recv_message r mem off l0 e0 =
        (0, r\<lparr>inbox := later, read_calls := Suc (read_calls r)\<rparr>, mem, 0,
         uint (ntohs [hi, lo] AND 1))"
    using hd unfolding recv_message_def by (simp del: ntohs.simps)
  from first second show ?thesis by blast
qed

theorem header_layout_witness:
  "outbox (snd (send_message quiet_socket [] 0 1)) = [0, 1]
   \<and> recv_message (quiet_socket\<lparr>inbox := [0, 1, 9]\<rparr>) [5, 5] 0 0 0 =
       (0, quiet_socket\<lparr>inbox := [9], read_calls := 1\<rparr>, [5, 5], 0, 1)"
proof -
  have z: "drop_bit 1 (ntohs [0, 1]) = 0" by simp
  have "(\<exists>h :: 16 word.
      outbox (snd (send_message quiet_socket [] 0 1)) =
        outbox quiet_socket @ [ucast (drop_bit 8 h), ucast h] @ take 0 []
      \<and> bit h 0 = ((1::int) \<noteq> 0)
      \<and> (\<forall>i<15. bit h (Suc i) = bit (0::nat) i)
      \<and> unat (drop_bit 1 h) = 0
      \<and> ((0::nat) = 0 \<longrightarrow> outbox (snd (send_message quiet_socket [] 0 1)) =
            outbox quiet_socket @ [ucast (drop_bit 8 h), ucast h]))
    \<and> recv_message (quiet_socket\<lparr>inbox := [0, 1, 9]\<rparr>) [5, 5] 0 0 0 =
        (0, (quiet_socket\<lparr>inbox := [0, 1, 9]\<rparr>)\<lparr>inbox := [9], read_calls := Suc (read_calls (quiet_socket\<lparr>inbox := [0, 1, 9]\<rparr>))\<rparr>, [5, 5], 0,
         uint (ntohs [0, 1] AND 1))"
    by (rule header_layout [where later = "[9]", OF _ _ _ _ _ z]) (simp_all add: quiet_socket_def)
  moreover have "outbox (snd (send_message quiet_socket [] 0 1)) = [0, 1]"
    by (simp add: send_message_def sock_write_def quiet_socket_def htons_def header_limit_Suc)
  ultimately show ?thesis by (simp add: quiet_socket_def)
qed

section \<open>Loops, phases and library calls\<close>

lemma do_while_invariant:
  assumes "do_while body n s = Some (r, s')" and "I s"
    and "\<And>a b. I a \<Longrightarrow> body a = Next b \<Longrightarrow> I b"
    and "\<And>a b q. I a \<Longrightarrow> body a = Exit q b \<Longrightarrow> Q q b"
  shows "Q r s'"
  using assms(1,2)
proof (induction n arbitrary: s)
  case 0
  then show ?case by simp
next
  case (Suc n)
  show ?case
  proof (cases "body s")
    case (Next b)
    with Suc.prems have "do_while body n b = Some (r, s')" by simp
    moreover have "I b" using Suc.prems(2) Next by (rule assms(3))
    ultimately show ?thesis by (rule Suc.IH)
  next
    case (Exit q b)
    with Suc.prems have "q = r" "b = s'" by simp_all
    with assms(4) [OF Suc.prems(2) Exit] show ?thesis by simp
  qed
qed

lemma and_then_Next:
  "and_then m f = Next b \<Longrightarrow> \<exists>a. m = Next a \<and> f a = Next b"
  by (cases m) (simp_all add: and_then_def)

lemma and_then_Exit:
  "and_then m f = Exit q b \<Longrightarrow> m = Exit q b \<or> (\<exists>a. m = Next a \<and> f a = Exit q b)"
  by (cases m) (simp_all add: and_then_def)

lemma and_then_Next_start: "and_then (Next a) f = f a"
  by (simp add: and_then_def)

lemma take_then_rest: "take m u @ drop (length (take m u)) u = u"
  by (cases "m \<le> length u") (simp_all add: min_def)

lemma fread_prefix:
  assumes "fread f n = (got, f')"
  shows "unread f = got @ unread f' \<and> length got \<le> n"
proof -
  obtain m where m: "got = take m (unread f)" and mn: "m \<le> n"
  proof (cases "fault_in f")
    case None
    with assms have "got = take n (unread f)" by (simp add: fread_def Let_def)
    then show ?thesis using that by blast
  next
    case (Some k)
    with assms have "got = take (min n k) (unread f)" by (simp add: fread_def Let_def)
    then show ?thesis using that [of "min n k"] by simp
  qed
  have "unread f' = drop (length got) (unread f)"
    using assms by (auto simp add: fread_def Let_def)
  then have "got @ unread f' = unread f"
    unfolding m by (simp only: take_then_rest)
  moreover have "length got \<le> n" using m mn by simp
  ultimately show ?thesis by simp
qed

lemma fread_nothing:
  assumes "fread f n = ([], f')" and "0 < n" and "\<not> err_flag f'"
  shows "eof_flag f'"
  using assms by (auto simp add: fread_def Let_def split: if_splits)

lemma sock_read_header:
  assumes "sock_read s 2 = (2, hdr, s')"
  shows "hdr = take 2 (inbox s)"
proof (cases "read_plan s")
  case Nil
  with assms show ?thesis by (auto simp add: sock_read_def Let_def)
next
  case (Cons k ks)
  with assms have k: "\<not> k < 0" and hdr: "hdr = take (min (nat k) 2) (inbox s)"
    and len: "length hdr = 2"
    by (auto simp add: sock_read_def Let_def split: if_splits)
  from hdr len have "min (nat k) 2 = 2" by (cases "nat k < 2") auto
  with hdr show ?thesis by simp
qed

lemma sock_write_reads:
  "sock_write s bs = (v, s') \<Longrightarrow>
     inbox s' = inbox s \<and> read_calls s' = read_calls s \<and> read_plan s' = read_plan s"
  by (auto simp add: sock_write_def Let_def split: list.splits if_splits)

lemma send_message_reads:
  assumes "send_message s msg len eof = (v, s')"
  shows "inbox s' = inbox s \<and> read_calls s' = read_calls s \<and> read_plan s' = read_plan s"
proof (cases "len \<le> drop_bit 1 UINT16_MAX")
  case False
  with assms show ?thesis by (simp add: send_message_def)
next
  case True
  let ?h = "if eof \<noteq> 0 then (word_of_nat (push_bit 1 len) :: 16 word) OR 1
            else word_of_nat (push_bit 1 len)"
  obtain v1 s1 where w1: "sock_write s (htons ?h) = (v1, s1)" by (cases "sock_write s (htons ?h)")
  obtain v2 s2 where w2: "sock_write s1 (take len msg) = (v2, s2)"
    by (cases "sock_write s1 (take len msg)")
  have "s' = s1 \<or> s' = s2"
    using assms True w1 w2 by (auto simp add: send_message_def Let_def split: if_splits)
  then show ?thesis using sock_write_reads [OF w1] sock_write_reads [OF w2] by auto
qed

lemma send_message_returns:
  "len \<le> 32767 \<Longrightarrow> \<exists>v sk. send_message s msg len eof = (Return v, sk) \<and> (v = 0 \<or> v = - 1)"
  by (auto simp add: send_message_def header_limit_Suc Let_def split: prod.splits)

lemma memmove_front_eq:
  "n + a \<le> length mem \<Longrightarrow> memmove_front mem n a = take a (drop n mem) @ drop a mem"
proof -
  assume "n + a \<le> length mem"
  then have "length (take a (drop n mem)) = a" by simp
  then show ?thesis by (simp only: memmove_front_def store_bytes_def take_0 append_Nil add_0)
qed

lemma slid_window:
  assumes "n + a \<le> length mem" and "a + length got \<le> length mem"
  shows "store_bytes (if a > 0 then memmove_front mem n a else mem) a got =
      take a (drop n mem) @ got @ drop (a + length got) mem"
proof (cases "a > 0")
  case True
  have "length (take a (drop n mem)) = a" using assms(1) by simp
  then show ?thesis using True assms
    by (simp add: memmove_front_eq store_bytes_def add.commute)
next
  case False
  then show ?thesis by (simp add: store_bytes_def)
qed

lemma rs_job_iter_eq:
  assumes "it (job st) (window st) (eof_in (bufs st)) (avail_out (bufs st)) = (r, used, out, j)"
  shows "rs_job_iter it st =
    st\<lparr>job := j, res := r,
       bufs := (bufs st)\<lparr>next_in := next_in (bufs st) + used,
                 avail_in := avail_in (bufs st) - used,
                 next_out := next_out (bufs st) + length out,
                 avail_out := avail_out (bufs st) - length out\<rparr>,
       out_buf := store_bytes (out_buf st) (next_out (bufs st)) out,
       produced := produced st @ out\<rparr>"
  using assms by (simp add: rs_job_iter_def Let_def)

lemma job_contractD:
  assumes "job_contract it" and "it j w e a = (r, used, out, j')"
  shows "used \<le> length w" and "length out \<le> a"
  using assms unfolding job_contract_def by (metis (mono_tags, lifting) case_prod_conv)+

lemma iterate_job_Exit: "iterate_job it st = Exit q st' \<Longrightarrow> q = Return (- 1)"
  by (simp add: iterate_job_def Let_def split: if_splits)

lemma iterate_job_Next:
  "iterate_job it st = Next st' \<Longrightarrow>
     st' = rs_job_iter it st \<and> (res st' = RS_DONE \<or> res st' = RS_BLOCKED)"
  by (auto simp add: iterate_job_def Let_def split: if_splits)

lemma send_delta_refill_Next:
  assumes "send_delta_refill cap st = Next st'"
  shows "\<exists>got f. fread (infile st) (cap - avail_in (bufs st)) = (got, f)
    \<and> (got = [] \<longrightarrow> \<not> err_flag f)
    \<and> st' = st\<lparr>in_buf := store_bytes
                  (if avail_in (bufs st) > 0
                   then memmove_front (in_buf st) (next_in (bufs st)) (avail_in (bufs st))
                   else in_buf st) (avail_in (bufs st)) got,
                infile := f,
                bufs := (bufs st)\<lparr>eof_in := (if got = [] then feof f else eof_in (bufs st)),
                  next_in := 0, avail_in := avail_in (bufs st) + length got\<rparr>\<rparr>"
  using assms
  by (cases "fread (infile st) (cap - avail_in (bufs st))")
    (auto simp add: send_delta_refill_def Let_def ferror_def split: if_splits)

lemma send_signature_refill_Next:
  "send_signature_refill cap st = Next st' \<Longrightarrow> send_delta_refill cap st = Next st'"
  by (cases "fread (infile st) (cap - avail_in (bufs st))")
    (auto simp add: send_delta_refill_def send_signature_refill_def Let_def split: if_splits)

lemma send_delta_refill_Exit:
  "send_delta_refill cap st = Exit q st' \<Longrightarrow> q = Return (- 1)"
  by (cases "fread (infile st) (cap - avail_in (bufs st))")
    (auto simp add: send_delta_refill_def Let_def split: if_splits)

lemma send_signature_refill_Exit:
  "send_signature_refill cap st = Exit q st' \<Longrightarrow>
     q = Return (- 1) \<or> q = Assert_failed Eof_reached"
  by (cases "fread (infile st) (cap - avail_in (bufs st))")
    (auto simp add: send_signature_refill_def Let_def split: if_splits)

lemma send_delta_refill_out:
  assumes "send_delta_refill cap st = Next st'"
  shows "next_out (bufs st') = next_out (bufs st) \<and> avail_out (bufs st') = avail_out (bufs st)"
  using send_delta_refill_Next [OF assms] by auto

lemma fread_sound:
  assumes "fault_in f = None"
  shows "fread f n = (take n (unread f),
    f\<lparr>unread := drop n (unread f),
      eof_flag := (if length (unread f) < n then True else eof_flag f),
      fread_log := fread_log f @ [(n, min (length (unread f)) n)]\<rparr>)"
proof -
  have "drop (min (length (unread f)) n) (unread f) = drop n (unread f)"
    by (cases "n \<le> length (unread f)") (simp_all add: min_def)
  then show ?thesis using assms by (simp add: fread_def Let_def)
qed

lemma send_delta_refill_sound:
  assumes "fault_in (infile st) = None" and "err_flag (infile st) = False"
  shows "send_delta_refill cap st = Next
    (st\<lparr>in_buf := store_bytes
          (if avail_in (bufs st) > 0
           then memmove_front (in_buf st) (next_in (bufs st)) (avail_in (bufs st))
           else in_buf st) (avail_in (bufs st))
          (take (cap - avail_in (bufs st)) (unread (infile st))),
       infile := (infile st)\<lparr>unread := drop (cap - avail_in (bufs st)) (unread (infile st)),
          eof_flag := (if length (unread (infile st)) < cap - avail_in (bufs st) then True
                       else eof_flag (infile st)),
          fread_log := fread_log (infile st) @
            [(cap - avail_in (bufs st),
              min (length (unread (infile st))) (cap - avail_in (bufs st)))]\<rparr>,
       bufs := (bufs st)\<lparr>eof_in :=
            (if take (cap - avail_in (bufs st)) (unread (infile st)) = []
             then (if length (unread (infile st)) < cap - avail_in (bufs st)
                     \<or> eof_flag (infile st) then 1 else 0)
             else eof_in (bufs st)),
          next_in := 0,
          avail_in := avail_in (bufs st)
            + min (length (unread (infile st))) (cap - avail_in (bufs st))\<rparr>\<rparr>)"
  using assms
  by (simp add: send_delta_refill_def fread_sound Let_def ferror_def feof_def)

lemma send_signature_refill_sound:
  assumes "fault_in (infile st) = None" and "err_flag (infile st) = False"
    and "avail_in (bufs st) < cap"
  shows "send_signature_refill cap st = send_delta_refill cap st"
  using assms
  by (auto simp add: send_signature_refill_def send_delta_refill_def fread_sound Let_def
      ferror_def feof_def)

lemma sock_read_exact:
  assumes "sock_read s n = (int n, got, s')"
  shows "got = take n (inbox s) \<and> length got = n \<and> inbox s' = drop n (inbox s)"
proof (cases "read_plan s")
  case Nil
  with assms have g: "got = take n (inbox s)" and l: "length got = n"
    and i: "inbox s' = drop (length got) (inbox s)"
    by (auto simp add: sock_read_def Let_def)
  then show ?thesis by simp
next
  case (Cons k ks)
  with assms have k: "\<not> k < 0" and g: "got = take (min (nat k) n) (inbox s)"
    and l: "length got = n" and i: "inbox s' = drop (length got) (inbox s)"
    by (auto simp add: sock_read_def Let_def split: if_splits)
  from g l have "min (nat k) n = n" by (cases "nat k < n") auto
  with g l i show ?thesis by simp
qed

lemma recv_message_ok:
  assumes "recv_message s mem off l0 e0 = (v, s', mem', len, eof)" and "v \<noteq> - 1"
  shows "\<exists>payload. mem' = store_bytes mem off payload \<and> len = length payload
    \<and> drop 2 (inbox s) = payload @ inbox s'"
proof -
  obtain v1 hdr s1 where r1: "sock_read s 2 = (v1, hdr, s1)" by (metis prod_cases3)
  have v1: "v1 = 2" using assms r1 by (auto simp add: recv_message_def Let_def split: if_splits)
  with r1 have "sock_read s 2 = (int 2, hdr, s1)" by simp
  from sock_read_exact [OF this] have i1: "inbox s1 = drop 2 (inbox s)" by simp
  let ?len = "unat (drop_bit 1 (ntohs hdr))"
  show ?thesis
  proof (cases "0 < ?len")
    case False
    with assms r1 v1 have "mem' = mem" "len = 0" "s' = s1"
      by (auto simp add: recv_message_def Let_def)
    with i1 show ?thesis by (intro exI [of _ "[]"]) (simp add: store_bytes_def)
  next
    case True
    obtain v2 payload s2 where r2: "sock_read s1 ?len = (v2, payload, s2)"
      by (metis prod_cases3)
    from assms r1 v1 r2 True have v2: "v2 = int ?len" and m: "mem' = store_bytes mem off payload"
      and l: "len = ?len" and s: "s' = s2"
      by (auto simp add: recv_message_def Let_def split: if_splits)
    from r2 v2 have "sock_read s1 ?len = (int ?len, payload, s2)" by simp
    from sock_read_exact [OF this] i1 s l m show ?thesis
      by (intro exI [of _ payload]) (metis append_take_drop_id)
  qed
qed

lemma recv_refill_Next:
  assumes "recv_refill st = Next st'"
  shows "\<exists>payload. drop 2 (inbox (sock st)) = payload @ inbox (sock st')
    \<and> in_buf st' = store_bytes
          (if avail_in (bufs st) > 0
           then memmove_front (in_buf st) (next_in (bufs st)) (avail_in (bufs st))
           else in_buf st) (avail_in (bufs st)) payload
    \<and> next_in (bufs st') = 0
    \<and> avail_in (bufs st') = avail_in (bufs st) + length payload"
proof -
  let ?mem = "if avail_in (bufs st) > 0
           then memmove_front (in_buf st) (next_in (bufs st)) (avail_in (bufs st))
           else in_buf st"
  obtain v sk mem' len eof where
    r: "recv_message (sock st) ?mem (avail_in (bufs st)) 0 (eof_in (bufs st))
        = (v, sk, mem', len, eof)"
    by (metis prod_cases5)
  from assms r have ok: "v \<noteq> - 1"
    and st': "st' = st\<lparr>sock := sk, in_buf := mem',
        bufs := (bufs st)\<lparr>eof_in := eof, next_in := 0, avail_in := avail_in (bufs st) + len\<rparr>\<rparr>"
    by (auto simp add: recv_refill_def Let_def split: if_splits)
  from recv_message_ok [OF r ok] show ?thesis by (auto simp add: st')
qed

lemma store_after_slide:
  assumes "n + a \<le> length mem"
  shows "take a (store_bytes (if a > 0 then memmove_front mem n a else mem) a bs)
      = take a (drop n mem)"
    and "take (a + length bs) (store_bytes (if a > 0 then memmove_front mem n a else mem) a bs)
      = take a (drop n mem) @ bs"
proof -
  have l: "length (take a (drop n mem)) = a" using assms by simp
  have t: "take a (if a > 0 then memmove_front mem n a else mem) = take a (drop n mem)"
    using assms l by (cases "a > 0") (simp_all add: memmove_front_eq)
  have la: "a \<le> length (if a > 0 then memmove_front mem n a else mem)"
    using assms l by (cases "a > 0") (simp_all add: memmove_front_eq)
  show "take a (store_bytes (if a > 0 then memmove_front mem n a else mem) a bs)
      = take a (drop n mem)"
    unfolding store_bytes_def using t la l by (simp add: min_def)
  show "take (a + length bs) (store_bytes (if a > 0 then memmove_front mem n a else mem) a bs)
      = take a (drop n mem) @ bs"
    unfolding store_bytes_def using t la l by (simp add: min_def)
qed

lemma recv_refill_sound:
  assumes "read_plan (sock st) = []" and "inbox (sock st) = htons h @ payload @ later"
    and "unat (drop_bit 1 h) = length payload"
  shows "\<exists>s. recv_refill st = Next s"
proof -
  let ?mem = "if avail_in (bufs st) > 0
           then memmove_front (in_buf st) (next_in (bufs st)) (avail_in (bufs st))
           else in_buf st"
  from recv_message_frame [OF assms, of ?mem "avail_in (bufs st)" 0 "eof_in (bufs st)"]
  show ?thesis by (simp add: recv_refill_def Let_def)
qed

lemma file_refills_sound:
  assumes "fault_in (infile st) = None" and "err_flag (infile st) = False"
  shows "(\<exists>s. send_delta_refill cap st = Next s)
    \<and> (avail_in (bufs st) < cap \<longrightarrow> (\<exists>s. send_signature_refill cap st = Next s))"
  using send_delta_refill_sound [OF assms, of cap] send_signature_refill_sound [OF assms, of cap]
  by auto

text \<open>To run a pump on a concrete input, the simplifier unfolds these.\<close>

lemmas run_defs = send_delta_def send_delta_iteration_def send_delta_refill_def
  send_signature_def send_signature_iteration_def send_signature_refill_def
  recv_signature_def recv_signature_iteration_def recv_refill_def
  recv_delta_and_patch_file_def recv_delta_and_patch_file_iteration_def drain_file_def
  iterate_job_def drain_socket_def rs_job_iter_def window_def and_then_def init_bufs_def
  send_message_def recv_message_def sock_write_def sock_read_def fread_def fwrite_def
  feof_def ferror_def store_bytes_def memmove_front_def htons_def
  BUFFER_SIZE_eq header_limit_Suc header_limit
  entry_def opened_def created_def quiet_socket_def

lemma two: "2 = Suc (Suc 0)" by simp

lemma four: "4 = Suc (Suc (Suc (Suc 0)))" by simp

section \<open>The input window\<close>

subsection \<open>Claim C8: the unconsumed tail is carried over\<close>

lemma file_refill_carries:
  assumes "send_signature_refill cap st = Next st' \<or> send_delta_refill cap st = Next st'"
    and "next_in (bufs st) + avail_in (bufs st) \<le> length (in_buf st)"
    and "length (in_buf st) = cap"
  shows "take (avail_in (bufs st)) (in_buf st') = window st
    \<and> next_in (bufs st') = 0
    \<and> (\<exists>fresh. window st' = window st @ fresh \<and> unread (infile st) = fresh @ unread (infile st'))
    \<and> length (in_buf st') = cap"
proof -
  let ?a = "avail_in (bufs st)" and ?n = "next_in (bufs st)"
  from assms(1) have "send_delta_refill cap st = Next st'"
    using send_signature_refill_Next by blast
  then obtain got f where rd: "fread (infile st) (cap - ?a) = (got, f)"
    and st': "st' = st\<lparr>in_buf := store_bytes
                  (if ?a > 0 then memmove_front (in_buf st) ?n ?a else in_buf st) ?a got,
                infile := f,
                bufs := (bufs st)\<lparr>eof_in := (if got = [] then feof f else eof_in (bufs st)),
                  next_in := 0, avail_in := ?a + length got\<rparr>\<rparr>"
    using send_delta_refill_Next by blast
  from rd have pre: "unread (infile st) = got @ unread f" and len: "length got \<le> cap - ?a"
    using fread_prefix by blast+
  have fit: "?a + length got \<le> length (in_buf st)" using len assms(2,3) by arith
  have mem: "in_buf st' = take ?a (drop ?n (in_buf st)) @ got @ drop (?a + length got) (in_buf st)"
    unfolding st' using slid_window [OF assms(2) fit] by simp
  have wl: "length (take ?a (drop ?n (in_buf st))) = ?a" using assms(2) by simp
  have 1: "take ?a (in_buf st') = window st" using wl by (simp add: mem window_def)
  have 2: "next_in (bufs st') = 0" by (simp add: st')
  have "window st' = take (?a + length got) (in_buf st')"
    by (simp add: window_def st')
  also have "\<dots> = window st @ got" using wl by (simp add: mem window_def)
  finally have 3: "window st' = window st @ got" .
  have 4: "length (in_buf st') = cap" using wl fit assms(3) by (simp add: mem)
  from 1 2 3 4 pre show ?thesis by (auto simp add: st')
qed

lemma recv_refill_carries:
  assumes "recv_refill st = Next st'"
    and "next_in (bufs st) + avail_in (bufs st) \<le> length (in_buf st)"
  shows "take (avail_in (bufs st)) (in_buf st') = window st
    \<and> next_in (bufs st') = 0
    \<and> (\<exists>fresh. window st' = window st @ fresh
          \<and> drop 2 (inbox (sock st)) = fresh @ inbox (sock st'))"
proof -
  obtain payload where p: "drop 2 (inbox (sock st)) = payload @ inbox (sock st')"
    and m: "in_buf st' = store_bytes
          (if avail_in (bufs st) > 0
           then memmove_front (in_buf st) (next_in (bufs st)) (avail_in (bufs st))
           else in_buf st) (avail_in (bufs st)) payload"
    and n: "next_in (bufs st') = 0"
    and a: "avail_in (bufs st') = avail_in (bufs st) + length payload"
    using recv_refill_Next [OF assms(1)] by blast
  have 1: "take (avail_in (bufs st)) (in_buf st') = window st"
    unfolding m window_def by (rule store_after_slide(1) [OF assms(2)])
  have "window st' = take (avail_in (bufs st) + length payload) (in_buf st')"
    by (simp add: window_def n a)
  also have "\<dots> = window st @ payload"
    unfolding m window_def by (rule store_after_slide(2) [OF assms(2)])
  finally have "window st' = window st @ payload" .
  with 1 n p show ?thesis by blast
qed

text \<open>
  Claim C8. Take a refill that runs on a window lying inside the array. In
  \<^verbatim>\<open>send_signature\<close> and \<^verbatim>\<open>send_delta\<close> (first part) the \<open>avail_in\<close> bytes the job has
  left are afterwards at the start of the array, the same bytes in the same order; the
  bytes read from the file (\<open>fresh\<close>) follow them in the new window and are the next
  bytes of the file; and the array is not overrun. In \<^verbatim>\<open>recv_signature\<close> and
  \<^verbatim>\<open>recv_delta_and_patch_file\<close> (second part) the tail is kept in the same way and
  the payload received, which follows the two header bytes in the socket, comes after
  it. And the refills do run (third and fourth part): from a file without read errors
  the refill of \<^verbatim>\<open>send_delta\<close> always goes on to the step, that of \<^verbatim>\<open>send_signature\<close>
  does whenever the window is not full, and the socket refill does when a whole frame
  is there to be read.
\<close>

theorem tail_carried_over:
  assumes "next_in (bufs st) + avail_in (bufs st) \<le> length (in_buf st)"
  shows "(length (in_buf st) = cap \<longrightarrow>
          send_signature_refill cap st = Next s1 \<or> send_delta_refill cap st = Next s1 \<longrightarrow>
          take (avail_in (bufs st)) (in_buf s1) = window st
          \<and> next_in (bufs s1) = 0
          \<and> (\<exists>fresh. window s1 = window st @ fresh
                \<and> unread (infile st) = fresh @ unread (infile s1))
          \<and> length (in_buf s1) = cap)
    \<and> (recv_refill st = Next s2 \<longrightarrow>
          take (avail_in (bufs st)) (in_buf s2) = window st
          \<and> next_in (bufs s2) = 0
          \<and> (\<exists>fresh. window s2 = window st @ fresh
                \<and> drop 2 (inbox (sock st)) = fresh @ inbox (sock s2)))
    \<and> (fault_in (infile st) = None \<longrightarrow> err_flag (infile st) = False \<longrightarrow>
          (\<exists>s. send_delta_refill cap st = Next s)
          \<and> (avail_in (bufs st) < cap \<longrightarrow> (\<exists>s. send_signature_refill cap st = Next s)))
    \<and> (read_plan (sock st) = [] \<longrightarrow> inbox (sock st) = htons h @ payload @ later \<longrightarrow>
          unat (drop_bit 1 h) = length payload \<longrightarrow> (\<exists>s. recv_refill st = Next s))"
  using file_refill_carries [OF _ assms, of cap s1] recv_refill_carries [OF _ assms, of s2]
    file_refills_sound [of st cap] recv_refill_sound [of st h payload later]
  by blast

theorem tail_carried_over_witness:
  "next_in (bufs tail_left) + avail_in (bufs tail_left) \<le> length (in_buf tail_left)
   \<and> length (in_buf tail_left) = BUFFER_SIZE
   \<and> window tail_left = [1, 2]
   \<and> send_signature_refill BUFFER_SIZE tail_left = Next tail_kept
   \<and> send_delta_refill BUFFER_SIZE tail_left = Next tail_kept
   \<and> take (avail_in (bufs tail_left)) (in_buf tail_kept) = window tail_left
   \<and> next_in (bufs tail_kept) = 0
   \<and> (\<exists>fresh. window tail_kept = window tail_left @ fresh
         \<and> unread (infile tail_left) = fresh @ unread (infile tail_kept))
   \<and> length (in_buf tail_kept) = BUFFER_SIZE
   \<and> fault_in (infile tail_left) = None \<and> err_flag (infile tail_left) = False
   \<and> avail_in (bufs tail_left) < BUFFER_SIZE
   \<and> (\<exists>s. send_delta_refill BUFFER_SIZE tail_left = Next s)
   \<and> (\<exists>s. send_signature_refill BUFFER_SIZE tail_left = Next s)
   \<and> next_in (bufs tail_left_recv) + avail_in (bufs tail_left_recv)
       \<le> length (in_buf tail_left_recv)
   \<and> window tail_left_recv = [1, 2]
   \<and> read_plan (sock tail_left_recv) = []
   \<and> inbox (sock tail_left_recv) = htons 6 @ [7, 8, 6] @ [42]
   \<and> unat (drop_bit 1 (6 :: 16 word)) = length [7, 8, 6 :: byte]
   \<and> (\<exists>s. recv_refill tail_left_recv = Next s)
   \<and> recv_refill tail_left_recv = Next tail_kept_recv
   \<and> take (avail_in (bufs tail_left_recv)) (in_buf tail_kept_recv) = window tail_left_recv
   \<and> next_in (bufs tail_kept_recv) = 0
   \<and> (\<exists>fresh. window tail_kept_recv = window tail_left_recv @ fresh
         \<and> drop 2 (inbox (sock tail_left_recv)) = fresh @ inbox (sock tail_kept_recv))"
proof -
  have w1: "next_in (bufs tail_left) + avail_in (bufs tail_left) \<le> length (in_buf tail_left)"
    by (simp add: tail_left_def)
  have l1: "length (in_buf tail_left) = BUFFER_SIZE"
    by (simp add: tail_left_def BUFFER_SIZE_eq)
  have v1: "window tail_left = [1, 2]" by (simp add: window_def tail_left_def)
  have sg: "send_signature_refill BUFFER_SIZE tail_left = Next tail_kept"
    by (simp add: run_defs tail_left_def tail_kept_def)
  have dl: "send_delta_refill BUFFER_SIZE tail_left = Next tail_kept"
    by (simp add: run_defs tail_left_def tail_kept_def)
  have f1: "fault_in (infile tail_left) = None" "err_flag (infile tail_left) = False"
    by (simp_all add: tail_left_def entry_def opened_def)
  have a1: "avail_in (bufs tail_left) < BUFFER_SIZE" by (simp add: tail_left_def BUFFER_SIZE_eq)
  note byfile = tail_carried_over [OF w1, of BUFFER_SIZE tail_kept]
  have c1: "take (avail_in (bufs tail_left)) (in_buf tail_kept) = window tail_left
      \<and> next_in (bufs tail_kept) = 0
      \<and> (\<exists>fresh. window tail_kept = window tail_left @ fresh
            \<and> unread (infile tail_left) = fresh @ unread (infile tail_kept))
      \<and> length (in_buf tail_kept) = BUFFER_SIZE"
    by (rule byfile [THEN conjunct1, rule_format, OF l1 disjI1 [OF sg]])
  have e1: "(\<exists>s. send_delta_refill BUFFER_SIZE tail_left = Next s)
      \<and> (avail_in (bufs tail_left) < BUFFER_SIZE \<longrightarrow>
          (\<exists>s. send_signature_refill BUFFER_SIZE tail_left = Next s))"
    by (rule byfile [THEN conjunct2, THEN conjunct2, THEN conjunct1, rule_format, OF f1])
  have w2: "next_in (bufs tail_left_recv) + avail_in (bufs tail_left_recv)
       \<le> length (in_buf tail_left_recv)"
    by (simp add: tail_left_recv_def)
  have v2: "window tail_left_recv = [1, 2]" by (simp add: window_def tail_left_recv_def)
  have p2: "read_plan (sock tail_left_recv) = []"
    by (simp add: tail_left_recv_def entry_def quiet_socket_def)
  have i2: "inbox (sock tail_left_recv) = htons 6 @ [7, 8, 6] @ [42]"
    by (simp add: tail_left_recv_def entry_def quiet_socket_def htons_def)
  have u2: "unat (drop_bit 1 (6 :: 16 word)) = length [7, 8, 6 :: byte]" by simp
  have rc: "recv_refill tail_left_recv = Next tail_kept_recv"
    by (simp add: run_defs tail_left_recv_def tail_kept_recv_def)
  note bysock = tail_carried_over [OF w2, of _ _ tail_kept_recv]
  have c2: "take (avail_in (bufs tail_left_recv)) (in_buf tail_kept_recv) = window tail_left_recv
      \<and> next_in (bufs tail_kept_recv) = 0
      \<and> (\<exists>fresh. window tail_kept_recv = window tail_left_recv @ fresh
            \<and> drop 2 (inbox (sock tail_left_recv)) = fresh @ inbox (sock tail_kept_recv))"
    by (rule bysock [THEN conjunct2, THEN conjunct1, rule_format, OF rc])
  have e2: "\<exists>s. recv_refill tail_left_recv = Next s"
    by (rule bysock [THEN conjunct2, THEN conjunct2, THEN conjunct2, rule_format, OF p2 i2 u2])
  from w1 l1 v1 sg dl c1 f1 a1 e1 w2 v2 p2 i2 u2 e2 rc c2 show ?thesis by blast
qed

subsection \<open>Claim C1: a socket refill can overrun the input array\<close>

text \<open>
  Claim C1 says that no refill writes past the end of the 32767 bytes of \<^verbatim>\<open>in_buf\<close>.
  The refills from a file ask \<^verbatim>\<open>fread\<close> for \<^verbatim>\<open>sizeof(in_buf) - bufs.avail_in\<close> bytes
  and keep the bound. The refill from the socket passes
  \<^verbatim>\<open>in_buf + bufs.avail_in\<close> to \<^verbatim>\<open>recv_message\<close>, which stores as many bytes as the
  header says, up to 32767, whatever is left over. Here \<^verbatim>\<open>recv_signature\<close> receives a
  frame of one byte, of which the job consumes nothing, and then a frame of 32767 bytes:
  the array ends up one byte longer than it is.
\<close>

theorem socket_refill_overrun:
  "map_option (\<lambda>(r, st). (r, in_buf st, inbox (sock st)))
     (recv_signature waiting 2
        (entry 0 (quiet_socket\<lparr>inbox := [0, 2, 7, 255, 255] @ replicate 32767 9\<rparr>)
           (opened []) created)) =
   Some (Return 0, 7 # replicate 32767 9, [])
   \<and> length (7 # replicate 32767 (9 :: byte)) = BUFFER_SIZE + 1"
  unfolding two
  by (simp add: run_defs waiting_def)

section \<open>The frames a sender emits\<close>

subsection \<open>Claim C10: the length assertion holds in the senders\<close>

lemma rs_job_iter_out:
  assumes "job_contract it" and "out_ready cap st"
  shows "next_out (bufs (rs_job_iter it st)) \<le> cap
    \<and> avail_out (bufs (rs_job_iter it st)) = cap - next_out (bufs (rs_job_iter it st))"
proof -
  obtain r used out j where
    step: "it (job st) (window st) (eof_in (bufs st)) (avail_out (bufs st)) = (r, used, out, j)"
    by (metis prod_cases4)
  have "length out \<le> cap"
    using job_contractD(2) [OF assms(1) step] assms(2) by (simp add: out_ready_def)
  then show ?thesis
    using assms(2) by (simp add: rs_job_iter_eq [of it st, OF step] out_ready_def)
qed

lemma drain_socket_Exit:
  assumes "next_out (bufs st) \<le> 32767" and "drain_socket cap st = Exit q st'"
  shows "q = Return (- 1)"
proof -
  obtain v sk where "send_message (sock st) (out_buf st) (next_out (bufs st)) (eof_in (bufs st))
      = (Return v, sk)" "v = 0 \<or> v = - 1"
    using send_message_returns [OF assms(1)] by blast
  with assms(2) show ?thesis
    by (auto simp add: drain_socket_def Let_def split: if_splits)
qed

lemma drain_socket_Next:
  assumes "drain_socket cap st = Next st'"
  shows "(next_out (bufs st) = 0 \<and> st' = st) \<or> (0 < next_out (bufs st) \<and> out_ready cap st')"
  using assms
  by (auto simp add: drain_socket_def Let_def out_ready_def
      split: if_splits prod.splits outcome.splits)

lemma sender_tail_out:
  assumes "job_contract it" and "cap \<le> 32767" and "out_ready cap st"
  shows "case and_then (iterate_job it st)
             (\<lambda>st. and_then (drain_socket cap st)
               (\<lambda>st. if res st \<noteq> RS_DONE then Next st else Exit (Return 0) st)) of
           Next st' \<Rightarrow> out_ready cap st'
         | Exit q st' \<Rightarrow> q \<noteq> Assert_failed Len_fits_header"
proof -
  let ?s1 = "rs_job_iter it st"
  have o1: "next_out (bufs ?s1) \<le> cap"
    "avail_out (bufs ?s1) = cap - next_out (bufs ?s1)"
    using rs_job_iter_out [OF assms(1,3)] by simp_all
  then have small: "next_out (bufs ?s1) \<le> 32767" using assms(2) by simp
  show ?thesis
  proof (cases "iterate_job it st")
    case (Exit q s)
    then show ?thesis using iterate_job_Exit [OF Exit] by (simp add: and_then_def)
  next
    case (Next s)
    then have s: "s = ?s1" using iterate_job_Next by blast
    show ?thesis
    proof (cases "drain_socket cap s")
      case (Exit q s2)
      then show ?thesis using Next drain_socket_Exit [of s cap q s2] small s
        by (simp add: and_then_def)
    next
      case Next2: (Next s2)
      have "out_ready cap s2"
        using drain_socket_Next [OF Next2] o1 s by (auto simp add: out_ready_def)
      then show ?thesis using Next Next2 by (simp add: and_then_def)
    qed
  qed
qed

lemma send_delta_iteration_out:
  assumes "job_contract it" and "cap \<le> 32767" and "out_ready cap st"
  shows "case send_delta_iteration cap it st of
           Next st' \<Rightarrow> out_ready cap st'
         | Exit q st' \<Rightarrow> q \<noteq> Assert_failed Len_fits_header"
proof (cases "if eof_in (bufs st) = 0 then send_delta_refill cap st else Next st")
  case (Next s0)
  then have "out_ready cap s0"
    using assms(3) send_delta_refill_out [of cap st s0]
    by (auto simp add: out_ready_def split: if_splits)
  from sender_tail_out [OF assms(1,2) this] Next show ?thesis
    by (simp add: send_delta_iteration_def and_then_def)
next
  case (Exit q s0)
  then have "q = Return (- 1)" using send_delta_refill_Exit by (auto split: if_splits)
  with Exit show ?thesis by (simp add: send_delta_iteration_def and_then_def)
qed

lemma send_signature_iteration_out:
  assumes "job_contract it" and "cap \<le> 32767" and "out_ready cap st"
  shows "case send_signature_iteration cap it st of
           Next st' \<Rightarrow> out_ready cap st'
         | Exit q st' \<Rightarrow> q \<noteq> Assert_failed Len_fits_header"
proof (cases "if eof_in (bufs st) = 0 then send_signature_refill cap st else Next st")
  case (Next s0)
  then have "out_ready cap s0"
    using assms(3) send_delta_refill_out [of cap st s0] send_signature_refill_Next [of cap st s0]
    by (auto simp add: out_ready_def split: if_splits)
  from sender_tail_out [OF assms(1,2) this] Next show ?thesis
    by (simp add: send_signature_iteration_def and_then_def)
next
  case (Exit q s0)
  then have "q = Return (- 1) \<or> q = Assert_failed Eof_reached"
    using send_signature_refill_Exit by (auto split: if_splits)
  with Exit show ?thesis by (auto simp add: send_signature_iteration_def and_then_def)
qed

lemma sender_loop_out:
  assumes "do_while body n s = Some (r, s')" and "out_ready cap s"
    and "\<And>st. out_ready cap st \<Longrightarrow>
           (case body st of Next st' \<Rightarrow> out_ready cap st'
            | Exit q st' \<Rightarrow> q \<noteq> Assert_failed Len_fits_header)"
  shows "r \<noteq> Assert_failed Len_fits_header"
proof (rule do_while_invariant [OF assms(1), where I = "out_ready cap"
      and Q = "\<lambda>q b. q \<noteq> Assert_failed Len_fits_header"])
  show "out_ready cap s" by (rule assms(2))
next
  fix a b assume "out_ready cap a" "body a = Next b"
  with assms(3) [of a] show "out_ready cap b" by simp
next
  fix a b q assume "out_ready cap a" "body a = Exit q b"
  with assms(3) [of a] show "q \<noteq> Assert_failed Len_fits_header" by simp
qed

text \<open>
  Claim C10. With a job that keeps to \<open>avail_out\<close>, the output window is empty at the
  start of every pass, so \<^verbatim>\<open>present\<close> is at most \<open>BUFFER_SIZE\<close> when \<^verbatim>\<open>send_message\<close>
  is called: whatever the fuel, the file, the socket and the result of the call before
  the loop, neither \<^verbatim>\<open>send_signature\<close> nor \<^verbatim>\<open>send_delta\<close> ends in a failure of the
  length assertion.
\<close>

theorem length_assertion_holds:
  assumes "job_contract it"
  shows "send_signature it args fuel st \<noteq> Some (Assert_failed Len_fits_header, st')
    \<and> send_delta it built fuel st \<noteq> Some (Assert_failed Len_fits_header, st')"
proof -
  have ready: "out_ready BUFFER_SIZE (st\<lparr>bufs := init_bufs BUFFER_SIZE\<rparr>)"
    by (simp add: out_ready_def init_bufs_def)
  have cap: "BUFFER_SIZE \<le> 32767" by (simp add: BUFFER_SIZE_eq)
  have "send_signature it args fuel st \<noteq> Some (Assert_failed Len_fits_header, st')"
  proof
    assume a: "send_signature it args fuel st = Some (Assert_failed Len_fits_header, st')"
    then have "do_while (send_signature_iteration BUFFER_SIZE it) fuel
        (st\<lparr>bufs := init_bufs BUFFER_SIZE\<rparr>) = Some (Assert_failed Len_fits_header, st')"
      by (simp add: send_signature_def split: if_splits)
    from sender_loop_out [OF this ready send_signature_iteration_out [OF assms cap]]
    show False by simp
  qed
  moreover have "send_delta it built fuel st \<noteq> Some (Assert_failed Len_fits_header, st')"
  proof
    assume a: "send_delta it built fuel st = Some (Assert_failed Len_fits_header, st')"
    then have "do_while (send_delta_iteration BUFFER_SIZE it) fuel
        (st\<lparr>bufs := init_bufs BUFFER_SIZE\<rparr>) = Some (Assert_failed Len_fits_header, st')"
      by (simp add: send_delta_def split: if_splits)
    from sender_loop_out [OF this ready send_delta_iteration_out [OF assms cap]]
    show False by simp
  qed
  ultimately show ?thesis by simp
qed

theorem length_assertion_holds_witness:
  "job_contract copier
   \<and> send_signature copier RS_DONE 3 (entry 0 quiet_socket (opened [1, 2, 3]) created)
       \<noteq> Some (Assert_failed Len_fits_header, entry 0 quiet_socket (opened [1, 2, 3]) created)
   \<and> send_delta copier RS_DONE 3 (entry 0 quiet_socket (opened [1, 2, 3]) created)
       \<noteq> Some (Assert_failed Len_fits_header, entry 0 quiet_socket (opened [1, 2, 3]) created)"
proof -
  have c: "job_contract copier" by (simp add: job_contract_def copier_def)
  from length_assertion_holds [OF c] c show ?thesis by blast
qed

subsection \<open>Claim C3: the flag is the sender's \<open>eof_in\<close>, not the mark of the last frame\<close>

text \<open>
  Claim C3 says that no frame follows a frame whose flag is 1. The senders pass
  \<^verbatim>\<open>bufs.eof_in\<close> as the flag, so every frame sent after the file has ended carries it.
  Here \<^verbatim>\<open>send_delta\<close> reads an empty file and the job needs two steps to write its
  output: two frames go out, \<open>[0, 3, 1]\<close> and \<open>[0, 3, 2]\<close>, both with the flag. The
  header comment of \<^verbatim>\<open>common.h\<close> gives the flag the meaning the claim states, and the
  receiving loops stop reading at the first flagged frame. In the second run the job
  has written all its output before the end of the file is seen: the only frame,
  \<open>[0, 6, 1, 2, 3]\<close>, goes out without the flag, and none follows.
\<close>

theorem eof_flag_misplaced:
  "map_option (\<lambda>(r, st). (r, outbox (sock st)))
     (send_delta flusher RS_DONE 2 (entry 0 quiet_socket (opened []) created)) =
   Some (Return 0, [0, 3, 1, 0, 3, 2])
   \<and> map_option (\<lambda>(r, st). (r, outbox (sock st)))
     (send_delta copier RS_DONE 2 (entry 0 quiet_socket (opened [1, 2, 3]) created)) =
   Some (Return 0, [0, 6, 1, 2, 3])"
  unfolding two
  by (simp add: run_defs flusher_def copier_def)

section \<open>The drain to a file\<close>

subsection \<open>Claim C4: a short \<^verbatim>\<open>fwrite\<close> goes unnoticed\<close>

text \<open>
  Claim C4 says that a push the sink does not accept in full is an error. For the
  socket this is so: \<^verbatim>\<open>send_message\<close> compares the result of \<^verbatim>\<open>write\<close> with the
  length. \<^verbatim>\<open>recv_delta_and_patch_file\<close> compares the result of \<^verbatim>\<open>fwrite\<close> with 0
  only. Here the job writes the two bytes \<open>[5, 6]\<close>, the file takes one of them, and
  the function returns 0 with \<open>[5]\<close> in the file.
\<close>

theorem short_fwrite_accepted:
  "map_option (\<lambda>(r, st). (r, written (newfile st), produced st))
     (recv_delta_and_patch_file copier True 2
        (entry 0 (quiet_socket\<lparr>inbox := [0, 5, 5, 6]\<rparr>) (opened [])
           (created\<lparr>fwrite_plan := [1]\<rparr>))) =
   Some (Return 0, [5], [5, 6])"
  unfolding two
  by (simp add: run_defs copier_def)

section \<open>The end of the stream\<close>

subsection \<open>Claim C6: once seen, the end of the stream stays\<close>

text \<open>
  Claim C6, as stated, fails for a pull that asks for nothing. When the job has left
  the window full, \<^verbatim>\<open>fread\<close> is asked for \<^verbatim>\<open>sizeof(in_buf) - bufs.avail_in = 0\<close> bytes
  and returns 0 with neither indicator set; \<^verbatim>\<open>send_delta\<close> then stores
  \<^verbatim>\<open>feof(file) = 0\<close> in \<open>eof_in\<close> and pulls again in the next pass. Here the file has
  32768 bytes and the first step of the job consumes nothing: the second call of
  \<^verbatim>\<open>fread\<close> asks for 0 bytes and returns 0, no error occurs, and two more calls follow.
\<close>

theorem zero_pull_counterexample:
  "map_option (\<lambda>(r, st). (r, fread_log (infile st), err_flag (infile st)))
     (send_delta waiting RS_DONE 4 (entry 0 quiet_socket (opened (replicate 32768 7)) created)) =
   Some (Return 0, [(32767, 32767), (0, 0), (32767, 1), (32767, 0)], False)"
  unfolding four
  by (simp add: run_defs waiting_def)

lemma no_pull_refl: "no_pull st st"
  by (simp add: no_pull_def)

lemma no_pull_trans: "no_pull a b \<Longrightarrow> no_pull b c \<Longrightarrow> no_pull a c"
  by (simp add: no_pull_def)

lemma rs_job_iter_no_pull: "no_pull st (rs_job_iter it st)"
  by (simp add: rs_job_iter_def no_pull_def Let_def split: prod.splits)

lemma iterate_job_no_pull:
  "iterate_job it st = Next st' \<or> iterate_job it st = Exit q st' \<Longrightarrow> no_pull st st'"
  using rs_job_iter_no_pull [of st it]
  by (auto simp add: iterate_job_def Let_def split: if_splits)

lemma drain_socket_no_pull:
  assumes "drain_socket cap st = Next st' \<or> drain_socket cap st = Exit q st'"
  shows "no_pull st st'"
proof (cases "0 < next_out (bufs st)")
  case False
  with assms show ?thesis by (auto simp add: drain_socket_def Let_def no_pull_def)
next
  case True
  obtain v sk where
    m: "send_message (sock st) (out_buf st) (next_out (bufs st)) (eof_in (bufs st)) = (v, sk)"
    by (cases "send_message (sock st) (out_buf st) (next_out (bufs st)) (eof_in (bufs st))")
  from assms True m send_message_reads [OF m] show ?thesis
    by (auto simp add: drain_socket_def Let_def no_pull_def split: outcome.splits if_splits)
qed

lemma drain_file_no_pull:
  assumes "drain_file cap st = Next st' \<or> drain_file cap st = Exit q st'"
  shows "no_pull st st'"
  using assms
  by (auto simp add: drain_file_def Let_def no_pull_def split: if_splits prod.splits)

lemma after_end_sender:
  assumes "and_then (iterate_job it st)
             (\<lambda>st. and_then (drain st)
               (\<lambda>st. if res st \<noteq> RS_DONE then Next st else Exit (Return 0) st)) = fl"
    and "fl = Next st' \<or> fl = Exit q st'"
    and "\<And>a b q. drain a = Next b \<or> drain a = Exit q b \<Longrightarrow> no_pull a b"
  shows "no_pull st st'"
proof (cases "iterate_job it st")
  case (Exit q1 s1)
  with assms(1,2) have "iterate_job it st = Exit q st'" by (auto simp add: and_then_def)
  then show ?thesis using iterate_job_no_pull by blast
next
  case (Next s1)
  then have a: "no_pull st s1" using iterate_job_no_pull by blast
  show ?thesis
  proof (cases "drain s1")
    case (Exit q2 s2)
    with Next assms(1,2) have "drain s1 = Exit q st'" by (auto simp add: and_then_def)
    then have "no_pull s1 st'" using assms(3) by blast
    with a show ?thesis by (rule no_pull_trans)
  next
    case Next2: (Next s2)
    with Next assms(1,2) have "s2 = st'" by (auto simp add: and_then_def split: if_splits)
    with Next2 have "no_pull s1 st'" using assms(3) by blast
    with a show ?thesis by (rule no_pull_trans)
  qed
qed

lemma after_end_send_delta:
  assumes "eof_in (bufs st) \<noteq> 0"
    and "send_delta_iteration cap it st = Next st' \<or> send_delta_iteration cap it st = Exit q st'"
  shows "no_pull st st'"
proof -
  have eq: "and_then (iterate_job it st)
             (\<lambda>st. and_then (drain_socket cap st)
               (\<lambda>st. if res st \<noteq> RS_DONE then Next st else Exit (Return 0) st))
        = send_delta_iteration cap it st"
    using assms(1) by (simp only: send_delta_iteration_def if_False and_then_Next_start)
  show ?thesis
    by (rule after_end_sender [where drain = "drain_socket cap", OF eq assms(2)])
      (rule drain_socket_no_pull)
qed

lemma after_end_send_signature:
  assumes "eof_in (bufs st) \<noteq> 0"
    and "send_signature_iteration cap it st = Next st'
       \<or> send_signature_iteration cap it st = Exit q st'"
  shows "no_pull st st'"
proof -
  have eq: "and_then (iterate_job it st)
             (\<lambda>st. and_then (drain_socket cap st)
               (\<lambda>st. if res st \<noteq> RS_DONE then Next st else Exit (Return 0) st))
        = send_signature_iteration cap it st"
    using assms(1) by (simp only: send_signature_iteration_def if_False and_then_Next_start)
  show ?thesis
    by (rule after_end_sender [where drain = "drain_socket cap", OF eq assms(2)])
      (rule drain_socket_no_pull)
qed

lemma after_end_recv_delta:
  assumes "eof_in (bufs st) \<noteq> 0"
    and "recv_delta_and_patch_file_iteration cap it st = Next st'
       \<or> recv_delta_and_patch_file_iteration cap it st = Exit q st'"
  shows "no_pull st st'"
proof -
  have eq: "and_then (iterate_job it st)
             (\<lambda>st. and_then (drain_file cap st)
               (\<lambda>st. if res st \<noteq> RS_DONE then Next st else Exit (Return 0) st))
        = recv_delta_and_patch_file_iteration cap it st"
    using assms(1)
    by (simp only: recv_delta_and_patch_file_iteration_def if_False and_then_Next_start)
  show ?thesis
    by (rule after_end_sender [where drain = "drain_file cap", OF eq assms(2)])
      (rule drain_file_no_pull)
qed

lemma after_end_recv_signature:
  assumes "eof_in (bufs st) \<noteq> 0"
    and "recv_signature_iteration it st = Next st' \<or> recv_signature_iteration it st = Exit q st'"
  shows "no_pull st st'"
proof (cases "iterate_job it st")
  case (Exit q1 s1)
  with assms have "iterate_job it st = Exit q st'"
    by (auto simp add: recv_signature_iteration_def and_then_def)
  then show ?thesis using iterate_job_no_pull by blast
next
  case (Next s1)
  with assms have "s1 = st'"
    by (auto simp add: recv_signature_iteration_def and_then_def split: if_splits)
  with Next show ?thesis using iterate_job_no_pull by blast
qed

lemma after_end_loop:
  assumes "do_while body n st = Some (q, st')" and "eof_in (bufs st) \<noteq> 0"
    and "\<And>a b q. eof_in (bufs a) \<noteq> 0 \<Longrightarrow> body a = Next b \<or> body a = Exit q b \<Longrightarrow> no_pull a b"
  shows "no_pull st st'"
proof (rule do_while_invariant [OF assms(1),
      where I = "\<lambda>a. eof_in (bufs a) \<noteq> 0 \<and> no_pull st a" and Q = "\<lambda>q b. no_pull st b"])
  show "eof_in (bufs st) \<noteq> 0 \<and> no_pull st st" using assms(2) by (simp add: no_pull_refl)
next
  fix a b assume a: "eof_in (bufs a) \<noteq> 0 \<and> no_pull st a" and b: "body a = Next b"
  then have "no_pull a b" using assms(3) by blast
  with a show "eof_in (bufs b) \<noteq> 0 \<and> no_pull st b"
    using no_pull_trans [of st a b] by (auto simp add: no_pull_def)
next
  fix a b q assume a: "eof_in (bufs a) \<noteq> 0 \<and> no_pull st a" and b: "body a = Exit q b"
  then have "no_pull a b" using assms(3) by blast
  with a show "no_pull st b" using no_pull_trans by blast
qed

lemma recv_refill_flag:
  assumes "recv_refill st = Next st'"
  shows "eof_in (bufs st') = uint (ntohs (take 2 (inbox (sock st))) AND 1)"
proof -
  obtain v hdr s1 where r: "sock_read (sock st) 2 = (v, hdr, s1)"
    by (metis prod_cases3)
  show ?thesis
  proof (cases "v = 2")
    case False
    with assms r show ?thesis
      by (simp add: recv_refill_def recv_message_def Let_def)
  next
    case True
    with r have "hdr = take 2 (inbox (sock st))" using sock_read_header by blast
    with assms r True show ?thesis
      by (auto simp add: recv_refill_def recv_message_def Let_def
          split: if_splits prod.splits)
  qed
qed

lemma file_refill_end:
  assumes "send_delta_refill cap st = Next st1" and "avail_in (bufs st) < cap"
    and "unread (infile st1) = unread (infile st)"
  shows "eof_in (bufs st1) \<noteq> 0"
proof -
  obtain got f where rd: "fread (infile st) (cap - avail_in (bufs st)) = (got, f)"
    and ok: "got = [] \<longrightarrow> \<not> err_flag f"
    and f: "infile st1 = f"
    and e: "eof_in (bufs st1) = (if got = [] then feof f else eof_in (bufs st))"
    using send_delta_refill_Next [OF assms(1)] by auto
  from fread_prefix [OF rd] assms(3) f have "got = []" by simp
  moreover from this rd ok assms(2) have "eof_flag f"
    by (intro fread_nothing [of "infile st" "cap - avail_in (bufs st)"]) auto
  ultimately show ?thesis using e by (simp add: feof_def)
qed

text \<open>
  Claim C6, amended. A pull from the file that asked for at least one byte (the window
  was not full) and brought none, without an error, sets \<open>eof_in\<close>, in
  \<^verbatim>\<open>send_signature\<close> and in \<^verbatim>\<open>send_delta\<close>. A pull from the socket sets \<open>eof_in\<close> to
  the flag of the header it has read. And in each of the four loops, from a state in
  which \<open>eof_in\<close> is set, through every pass and to the end of the run, \<open>eof_in\<close>
  keeps its value and neither \<^verbatim>\<open>fread\<close> nor \<^verbatim>\<open>read\<close> is called.
\<close>

theorem stream_end_sticks:
  "(refill \<in> {send_signature_refill cap, send_delta_refill cap} \<longrightarrow>
      refill st = Next st1 \<longrightarrow> avail_in (bufs st) < cap \<longrightarrow>
      unread (infile st1) = unread (infile st) \<longrightarrow> eof_in (bufs st1) \<noteq> 0)
   \<and> (recv_refill st = Next st1 \<longrightarrow>
        eof_in (bufs st1) = uint (ntohs (take 2 (inbox (sock st))) AND 1))
   \<and> (body \<in> {send_signature_iteration cap it, send_delta_iteration cap it,
                recv_signature_iteration it, recv_delta_and_patch_file_iteration cap it} \<longrightarrow>
        eof_in (bufs st) \<noteq> 0 \<longrightarrow>
        body st = Next st2 \<or> body st = Exit q st2 \<or> do_while body fuel st = Some (q, st2) \<longrightarrow>
        eof_in (bufs st2) = eof_in (bufs st) \<and> pulls st2 = pulls st)"
proof (intro conjI impI)
  assume "refill \<in> {send_signature_refill cap, send_delta_refill cap}"
    and "refill st = Next st1"
  then have "send_delta_refill cap st = Next st1"
    using send_signature_refill_Next by auto
  moreover assume "avail_in (bufs st) < cap" "unread (infile st1) = unread (infile st)"
  ultimately show "eof_in (bufs st1) \<noteq> 0" by (rule file_refill_end)
next
  assume "recv_refill st = Next st1"
  then show "eof_in (bufs st1) = uint (ntohs (take 2 (inbox (sock st))) AND 1)"
    by (rule recv_refill_flag)
next
  assume b: "body \<in> {send_signature_iteration cap it, send_delta_iteration cap it,
      recv_signature_iteration it, recv_delta_and_patch_file_iteration cap it}"
    and e: "eof_in (bufs st) \<noteq> 0"
    and run: "body st = Next st2 \<or> body st = Exit q st2 \<or> do_while body fuel st = Some (q, st2)"
  have pass: "no_pull a b'" if "eof_in (bufs a) \<noteq> 0" "body a = Next b' \<or> body a = Exit q' b'"
    for a b' q'
    using that b after_end_send_signature [of a cap it b' q']
      after_end_send_delta [of a cap it b' q'] after_end_recv_signature [of a it b' q']
      after_end_recv_delta [of a cap it b' q']
    by auto
  have "no_pull st st2"
  proof (cases "do_while body fuel st = Some (q, st2)")
    case True
    then show ?thesis using e pass by (rule after_end_loop)
  next
    case False
    with run have "body st = Next st2 \<or> body st = Exit q st2" by simp
    with e show ?thesis by (rule pass)
  qed
  then show "eof_in (bufs st2) = eof_in (bufs st)" "pulls st2 = pulls st"
    by (simp_all add: no_pull_def pulls_def)
qed

theorem stream_end_sticks_witness:
  "send_delta_refill BUFFER_SIZE at_end_of_file = Next end_seen
   \<and> avail_in (bufs at_end_of_file) < BUFFER_SIZE
   \<and> unread (infile end_seen) = unread (infile at_end_of_file)
   \<and> eof_in (bufs end_seen) \<noteq> 0
   \<and> recv_refill last_frame_waiting = Next last_frame_taken
   \<and> eof_in (bufs last_frame_taken) = uint (ntohs (take 2 (inbox (sock last_frame_waiting))) AND 1)
   \<and> do_while (send_delta_iteration BUFFER_SIZE flusher) 2 end_seen \<noteq> None
   \<and> eof_in (bufs (snd (the (do_while (send_delta_iteration BUFFER_SIZE flusher) 2 end_seen))))
       = eof_in (bufs end_seen)
   \<and> pulls (snd (the (do_while (send_delta_iteration BUFFER_SIZE flusher) 2 end_seen)))
       = pulls end_seen"
proof -
  let ?run = "do_while (send_delta_iteration BUFFER_SIZE flusher) 2 end_seen"
  have h1: "send_delta_refill BUFFER_SIZE \<in>
      {send_signature_refill BUFFER_SIZE, send_delta_refill BUFFER_SIZE}" by simp
  have h2: "send_delta_refill BUFFER_SIZE at_end_of_file = Next end_seen"
    by (simp add: run_defs at_end_of_file_def end_seen_def)
  have h3: "avail_in (bufs at_end_of_file) < BUFFER_SIZE"
    by (simp add: run_defs at_end_of_file_def)
  have h4: "unread (infile end_seen) = unread (infile at_end_of_file)"
    by (simp add: run_defs at_end_of_file_def end_seen_def)
  have a: "eof_in (bufs end_seen) \<noteq> 0"
    by (rule stream_end_sticks [THEN conjunct1, rule_format, OF h1 h2 h3 h4])
  have h5: "recv_refill last_frame_waiting = Next last_frame_taken"
    by (simp add: run_defs last_frame_waiting_def last_frame_taken_def)
  have b: "eof_in (bufs last_frame_taken) =
      uint (ntohs (take 2 (inbox (sock last_frame_waiting))) AND 1)"
    by (rule stream_end_sticks [THEN conjunct2, THEN conjunct1, rule_format, OF h5])
  have h6: "send_delta_iteration BUFFER_SIZE flusher \<in>
      {send_signature_iteration BUFFER_SIZE flusher, send_delta_iteration BUFFER_SIZE flusher,
       recv_signature_iteration flusher, recv_delta_and_patch_file_iteration BUFFER_SIZE flusher}"
    by simp
  have h7: "?run \<noteq> None"
    unfolding two by (simp add: run_defs at_end_of_file_def end_seen_def flusher_def)
  then have h8: "?run = Some (fst (the ?run), snd (the ?run))" by auto
  have c: "eof_in (bufs (snd (the ?run))) = eof_in (bufs end_seen)
      \<and> pulls (snd (the ?run)) = pulls end_seen"
    by (rule stream_end_sticks [THEN conjunct2, THEN conjunct2, rule_format,
          OF h6 a disjI2 [OF disjI2 [OF h8]]])
  from h2 h3 h4 a h5 b h7 c show ?thesis by blast
qed

section \<open>Termination and delivery\<close>

lemma do_while_terminates:
  assumes "wf R" and "I s"
    and "\<And>a. I a \<Longrightarrow> (case body a of Next b \<Rightarrow> I b \<and> (b, a) \<in> R | Exit q b \<Rightarrow> Q q b)"
  shows "\<exists>n q b. do_while body n s = Some (q, b) \<and> Q q b"
  using assms(1,2)
proof (induction s rule: wf_induct_rule)
  case (less a)
  show ?case
  proof (cases "body a")
    case (Exit q b)
    with assms(3) [OF less.prems] have "Q q b" by simp
    moreover from Exit have "do_while body (Suc 0) a = Some (q, b)" by simp
    ultimately show ?thesis by blast
  next
    case (Next b)
    with assms(3) [OF less.prems] have "I b" "(b, a) \<in> R" by simp_all
    then obtain n q c where "do_while body n b = Some (q, c)" "Q q c"
      using less.IH by blast
    moreover from this Next have "do_while body (Suc n) a = Some (q, c)" by simp
    ultimately show ?thesis by blast
  qed
qed

lemma length_window:
  "next_in (bufs st) + avail_in (bufs st) \<le> length (in_buf st) \<Longrightarrow>
     length (window st) = avail_in (bufs st)"
  by (simp add: window_def)

lemma refill_keeps_inv:
  assumes inv: "pump_inv cap base st" and cap: "0 < cap"
  shows "\<exists>s1. send_delta_refill cap st = Next s1 \<and> pump_inv cap base s1 \<and> job s1 = job st
    \<and> length (unread (infile s1)) + avail_in (bufs s1)
        = length (unread (infile st)) + avail_in (bufs st)
    \<and> (0 < avail_in (bufs s1) \<or> eof_in (bufs s1) \<noteq> 0)"
proof -
  define a where "a = avail_in (bufs st)"
  define n where "n = next_in (bufs st)"
  define u where "u = unread (infile st)"
  define got where "got = take (cap - a) u"
  define mem where "mem = store_bytes (if a > 0 then memmove_front (in_buf st) n a
      else in_buf st) a got"
  define f where "f = (infile st)\<lparr>unread := drop (cap - a) u,
          eof_flag := (if length u < cap - a then True else eof_flag (infile st)),
          fread_log := fread_log (infile st) @ [(cap - a, min (length u) (cap - a))]\<rparr>"
  define b where "b = (bufs st)\<lparr>eof_in :=
            (if got = [] then (if length u < cap - a \<or> eof_flag (infile st) then 1 else 0)
             else eof_in (bufs st)),
          next_in := 0, avail_in := a + min (length u) (cap - a)\<rparr>"
  define s1 where "s1 = st\<lparr>in_buf := mem, infile := f, bufs := b\<rparr>"
  from inv have na: "n + a \<le> cap" and len: "length (in_buf st) = cap"
    and ready: "out_ready cap st" and wp: "write_plan (sock st) = []"
    and fl: "fault_in (infile st) = None" and er: "err_flag (infile st) = False"
    and dl: "delivered base st"
    by (simp_all add: pump_inv_def a_def n_def)
  have step: "send_delta_refill cap st = Next s1"
    unfolding s1_def mem_def f_def b_def got_def a_def n_def u_def
    by (rule send_delta_refill_sound [OF fl er])
  have lg: "length got = min (length u) (cap - a)" by (simp add: got_def)
  have fit: "a + length got \<le> length (in_buf st)" using na len lg by simp
  have "mem = take a (drop n (in_buf st)) @ got @ drop (a + length got) (in_buf st)"
    unfolding mem_def using na len fit by (intro slid_window) simp_all
  moreover have "length (take a (drop n (in_buf st))) = a" using na len by simp
  ultimately have lm: "length mem = cap" using fit len by simp
  have i1: "next_in (bufs s1) + avail_in (bufs s1) \<le> cap"
    using na by (simp add: s1_def b_def)
  have i3: "out_ready cap s1" using ready by (simp add: out_ready_def s1_def b_def)
  have i6: "delivered base s1" using dl by (simp add: delivered_def s1_def)
  have inv1: "pump_inv cap base s1"
    unfolding pump_inv_def using i1 i3 i6 lm wp fl er by (simp add: s1_def f_def)
  have work: "length (unread (infile s1)) + avail_in (bufs s1) = length u + a"
    by (simp add: s1_def f_def b_def)
  have some: "0 < avail_in (bufs s1) \<or> eof_in (bufs s1) \<noteq> 0"
  proof (cases "got = []")
    case False
    then have "0 < length got" by simp
    then show ?thesis using lg by (simp add: s1_def b_def)
  next
    case True
    then have "min (length u) (cap - a) = 0" using lg by simp
    then have "0 < a \<or> length u < cap - a" using cap by (cases "a = 0") auto
    then show ?thesis using True by (auto simp add: s1_def b_def)
  qed
  from step inv1 work some show ?thesis
    by (intro exI [of _ s1]) (simp add: s1_def u_def a_def)
qed

lemma bufs_out_reset:
  assumes "next_out b = 0" and "avail_out b = cap"
  shows "b\<lparr>next_out := 0, avail_out := cap\<rparr> = b"
  using assms by (cases b) simp

lemma drain_socket_delivers:
  assumes wp: "write_plan (sock s2) = []" and small: "next_out (bufs s2) \<le> 32767"
    and fits: "next_out (bufs s2) \<le> length (out_buf s2)"
    and sent: "outbox (sock s2) = base @ concat (map frame_bytes frames)"
    and pend: "concat (map fst frames) @ take (next_out (bufs s2)) (out_buf s2) = produced s2"
    and av: "avail_out (bufs s2) = cap - next_out (bufs s2)"
  shows "\<exists>sk. drain_socket cap s2
      = Next (s2\<lparr>sock := sk, bufs := (bufs s2)\<lparr>next_out := 0, avail_out := cap\<rparr>\<rparr>)
    \<and> write_plan sk = [] \<and> delivered base (s2\<lparr>sock := sk\<rparr>)"
proof (cases "next_out (bufs s2) = 0")
  case True
  then have "(bufs s2)\<lparr>next_out := 0, avail_out := cap\<rparr> = bufs s2"
    using av by (intro bufs_out_reset) simp_all
  then have "drain_socket cap s2
      = Next (s2\<lparr>sock := sock s2, bufs := (bufs s2)\<lparr>next_out := 0, avail_out := cap\<rparr>\<rparr>)"
    using True by (simp add: drain_socket_def Let_def)
  moreover have "delivered base (s2\<lparr>sock := sock s2\<rparr>)"
    unfolding delivered_def using sent pend True by (intro exI [of _ frames]) simp
  ultimately show ?thesis using wp by blast
next
  case False
  let ?len = "next_out (bufs s2)" and ?e = "eof_in (bufs s2)"
  let ?out = "take ?len (out_buf s2)"
  let ?sk = "(sock s2)\<lparr>outbox := outbox (sock s2) @ htons (frame_header ?len ?e) @ ?out\<rparr>"
  have m: "send_message (sock s2) (out_buf s2) ?len ?e = (Return 0, ?sk)"
    using wp small fits by (rule send_message_sent)
  have d: "drain_socket cap s2
      = Next (s2\<lparr>sock := ?sk, bufs := (bufs s2)\<lparr>next_out := 0, avail_out := cap\<rparr>\<rparr>)"
    using False m by (simp add: drain_socket_def Let_def)
  have lo: "length ?out = ?len" using fits by simp
  have "outbox ?sk = base @ concat (map frame_bytes (frames @ [(?out, ?e)]))"
    using sent lo by (simp add: frame_bytes_def)
  moreover have "concat (map fst (frames @ [(?out, ?e)])) = produced s2"
    using pend by simp
  ultimately have "delivered base (s2\<lparr>sock := ?sk\<rparr>)"
    unfolding delivered_def by (intro exI [of _ "frames @ [(?out, ?e)]"]) simp
  moreover have "write_plan ?sk = []" using wp by simp
  ultimately show ?thesis using d by blast
qed

lemma job_liveD:
  assumes "job_live cap m it" and "it j w e cap = (r, used, out, j')"
  shows "r \<noteq> RS_FAILED"
    and "r = RS_DONE \<or> (w = [] \<and> e = 0) \<or> 0 < used \<or> m j' < m j"
  using assms(1) [unfolded job_live_def, rule_format, where j = j and w = w and e = e]
    assms(2) by simp_all

lemma job_eats_fullD:
  assumes "job_eats_full cap it" and "it j w e cap = (r, used, out, j')"
  shows "r = RS_DONE \<or> length w < cap \<or> 0 < used"
  using assms(1) [unfolded job_eats_full_def, rule_format,
      where j = j and w = w and e = e] assms(2) by simp

lemma step_and_drain:
  assumes inv: "pump_inv cap base s1" and cap: "cap \<le> 32767"
    and con: "job_contract it" and live: "job_live cap m it"
    and some: "0 < avail_in (bufs s1) \<or> eof_in (bufs s1) \<noteq> 0"
  shows "case and_then (iterate_job it s1)
             (\<lambda>st. and_then (drain_socket cap st)
               (\<lambda>st. if res st \<noteq> RS_DONE then Next st else Exit (Return 0) st)) of
           Next s3 \<Rightarrow> pump_inv cap base s3
             \<and> (work_left m s3, work_left m s1) \<in> less_than <*lex*> less_than
             \<and> (job_eats_full cap it \<longrightarrow> avail_in (bufs s3) < cap)
         | Exit q s3 \<Rightarrow> q = Return 0 \<and> delivered base s3 \<and> res s3 = RS_DONE"
proof -
  from inv have na: "next_in (bufs s1) + avail_in (bufs s1) \<le> cap"
    and len: "length (in_buf s1) = cap"
    and no: "next_out (bufs s1) = 0" and ao: "avail_out (bufs s1) = cap"
    and wp: "write_plan (sock s1) = []"
    and fl: "fault_in (infile s1) = None" and er: "err_flag (infile s1) = False"
    and dl: "delivered base s1"
    by (simp_all add: pump_inv_def out_ready_def)
  obtain r used out j where
    step: "it (job s1) (window s1) (eof_in (bufs s1)) (avail_out (bufs s1)) = (r, used, out, j)"
    by (metis prod_cases4)
  have lw: "length (window s1) = avail_in (bufs s1)"
    using na len by (intro length_window) simp
  have used: "used \<le> avail_in (bufs s1)"
    using job_contractD(1) [OF con step] lw by simp
  have out: "length out \<le> cap"
    using job_contractD(2) [OF con step] ao by simp
  have step': "it (job s1) (window s1) (eof_in (bufs s1)) cap = (r, used, out, j)"
    using step ao by simp
  have nf: "r \<noteq> RS_FAILED" using job_liveD(1) [OF live step'] .
  have busy: "window s1 \<noteq> [] \<or> eof_in (bufs s1) \<noteq> 0"
    using some lw by (metis length_greater_0_conv)
  have prog: "r = RS_DONE \<or> 0 < used \<or> m j < m (job s1)"
    using job_liveD(2) [OF live step'] busy by blast
  define b2 where "b2 = (bufs s1)\<lparr>next_in := next_in (bufs s1) + used,
      avail_in := avail_in (bufs s1) - used, next_out := length out,
      avail_out := cap - length out\<rparr>"
  define s2 where "s2 = s1\<lparr>job := j, res := r, bufs := b2,
      out_buf := store_bytes (out_buf s1) 0 out, produced := produced s1 @ out\<rparr>"
  have s2: "rs_job_iter it s1 = s2"
    unfolding s2_def b2_def using rs_job_iter_eq [of it s1, OF step] no ao by simp
  have it: "iterate_job it s1 = Next s2"
    using nf s2 by (cases r) (simp_all add: iterate_job_def Let_def s2_def)
  obtain frames where sent: "outbox (sock s1) = base @ concat (map frame_bytes frames)"
    and all: "concat (map fst frames) = produced s1"
    using dl unfolding delivered_def by blast
  have ob: "take (length out) (out_buf s2) = out"
    by (simp add: s2_def store_bytes_def)
  have "\<exists>sk. drain_socket cap s2
      = Next (s2\<lparr>sock := sk, bufs := (bufs s2)\<lparr>next_out := 0, avail_out := cap\<rparr>\<rparr>)
    \<and> write_plan sk = [] \<and> delivered base (s2\<lparr>sock := sk\<rparr>)"
  proof (rule drain_socket_delivers [where frames = frames])
    show "write_plan (sock s2) = []" using wp by (simp add: s2_def)
    show "next_out (bufs s2) \<le> 32767" using out cap by (simp add: s2_def b2_def)
    show "next_out (bufs s2) \<le> length (out_buf s2)"
      by (simp add: s2_def b2_def store_bytes_def)
    show "outbox (sock s2) = base @ concat (map frame_bytes frames)"
      using sent by (simp add: s2_def)
    show "concat (map fst frames) @ take (next_out (bufs s2)) (out_buf s2) = produced s2"
      using all ob by (simp add: s2_def b2_def)
    show "avail_out (bufs s2) = cap - next_out (bufs s2)" by (simp add: s2_def b2_def)
  qed
  then obtain sk where
    dr: "drain_socket cap s2
      = Next (s2\<lparr>sock := sk, bufs := (bufs s2)\<lparr>next_out := 0, avail_out := cap\<rparr>\<rparr>)"
    and wp3: "write_plan sk = []" and dl3: "delivered base (s2\<lparr>sock := sk\<rparr>)"
    by blast
  define s3 where "s3 = s2\<lparr>sock := sk, bufs := (bufs s2)\<lparr>next_out := 0, avail_out := cap\<rparr>\<rparr>"
  have d3: "delivered base s3" using dl3 by (simp add: delivered_def s3_def)
  have whole: "and_then (iterate_job it s1)
             (\<lambda>st. and_then (drain_socket cap st)
               (\<lambda>st. if res st \<noteq> RS_DONE then Next st else Exit (Return 0) st))
      = (if r \<noteq> RS_DONE then Next s3 else Exit (Return 0) s3)"
    using it dr by (simp add: and_then_def s3_def s2_def)
  show ?thesis
  proof (cases "r = RS_DONE")
    case True
    have "res s3 = r" by (simp add: s3_def s2_def)
    with True whole d3 show ?thesis by simp
  next
    case False
    have inv3: "pump_inv cap base s3"
      unfolding pump_inv_def using na used len wp3 fl er d3
      by (simp add: s3_def s2_def b2_def out_ready_def)
    have w3: "work_left m s3
        = (length (unread (infile s1)) + (avail_in (bufs s1) - used), m j)"
      by (simp add: work_left_def s3_def s2_def b2_def)
    have w1: "work_left m s1 = (length (unread (infile s1)) + avail_in (bufs s1), m (job s1))"
      by (simp add: work_left_def)
    have less: "(work_left m s3, work_left m s1) \<in> less_than <*lex*> less_than"
      unfolding w3 w1 using prog False used by auto
    have full: "job_eats_full cap it \<longrightarrow> avail_in (bufs s3) < cap"
    proof
      assume "job_eats_full cap it"
      from job_eats_fullD [OF this step'] False lw
      have "avail_in (bufs s1) < cap \<or> 0 < used" by simp
      then show "avail_in (bufs s3) < cap"
        using na used by (auto simp add: s3_def s2_def b2_def)
    qed
    from whole False inv3 less full show ?thesis by simp
  qed
qed

lemma send_delta_iteration_progress:
  assumes inv: "pump_inv cap base st" and pos: "0 < cap" and cap: "cap \<le> 32767"
    and con: "job_contract it" and live: "job_live cap m it"
  shows "case send_delta_iteration cap it st of
           Next s3 \<Rightarrow> pump_inv cap base s3
             \<and> (work_left m s3, work_left m st) \<in> less_than <*lex*> less_than
             \<and> (job_eats_full cap it \<longrightarrow> avail_in (bufs s3) < cap)
         | Exit q s3 \<Rightarrow> q = Return 0 \<and> delivered base s3 \<and> res s3 = RS_DONE"
proof -
  have "\<exists>s1. (if eof_in (bufs st) = 0 then send_delta_refill cap st else Next st) = Next s1
      \<and> pump_inv cap base s1 \<and> work_left m s1 = work_left m st
      \<and> (0 < avail_in (bufs s1) \<or> eof_in (bufs s1) \<noteq> 0)"
  proof (cases "eof_in (bufs st) = 0")
    case True
    from refill_keeps_inv [OF inv pos] True show ?thesis
      by (auto simp add: work_left_def)
  next
    case False
    with inv show ?thesis by simp
  qed
  then obtain s1 where
    a: "(if eof_in (bufs st) = 0 then send_delta_refill cap st else Next st) = Next s1"
    and inv1: "pump_inv cap base s1" and w: "work_left m s1 = work_left m st"
    and some: "0 < avail_in (bufs s1) \<or> eof_in (bufs s1) \<noteq> 0"
    by blast
  have "send_delta_iteration cap it st = and_then (iterate_job it s1)
             (\<lambda>st. and_then (drain_socket cap st)
               (\<lambda>st. if res st \<noteq> RS_DONE then Next st else Exit (Return 0) st))"
    unfolding send_delta_iteration_def a by (simp only: and_then_Next_start)
  with step_and_drain [OF inv1 cap con live some] w show ?thesis
    by (simp split: flow.splits)
qed

lemma send_signature_iteration_progress:
  assumes inv: "pump_inv cap base st" and pos: "0 < cap" and cap: "cap \<le> 32767"
    and con: "job_contract it" and live: "job_live cap m it"
    and room: "avail_in (bufs st) < cap"
  shows "send_signature_iteration cap it st = send_delta_iteration cap it st"
proof -
  from inv have "fault_in (infile st) = None" "err_flag (infile st) = False"
    by (simp_all add: pump_inv_def)
  then have "send_signature_refill cap st = send_delta_refill cap st"
    using room by (rule send_signature_refill_sound)
  then show ?thesis
    by (simp only: send_signature_iteration_def send_delta_iteration_def)
qed

lemma pump_inv_entry:
  assumes "bufs st = init_bufs cap" and "length (in_buf st) = cap"
    and "write_plan (sock st) = []" and "fault_in (infile st) = None"
    and "err_flag (infile st) = False" and "produced st = []"
  shows "pump_inv cap (outbox (sock st)) st"
proof -
  have "delivered (outbox (sock st)) st"
    unfolding delivered_def using assms(6) by (intro exI [of _ "[]"]) simp
  then show ?thesis
    using assms by (simp add: pump_inv_def out_ready_def init_bufs_def)
qed

subsection \<open>What the sending loops deliver\<close>

text \<open>
  Take any capacity from 1 to \<open>BUFFER_SIZE\<close> (the program's), a job that keeps to its
  windows and comes to its end (\<open>job_live\<close>), a file that is read without error,
  whatever its length, and a socket that takes all that is written. Then the loop of
  \<^verbatim>\<open>send_delta\<close> terminates: with enough fuel it returns 0 after the job has returned
  \<^verbatim>\<open>RS_DONE\<close>, and what the socket has received are frames whose payloads, in order,
  are exactly the bytes the job has written to the output window. The same holds for
  the loop of \<^verbatim>\<open>send_signature\<close> when the job never leaves a full window untouched.
\<close>

theorem pump_terminates_and_delivers:
  fixes it :: "'j job_iter"
  assumes "0 < cap" and "cap \<le> BUFFER_SIZE"
    and "job_contract it" and "job_live cap m it"
    and "bufs st = init_bufs cap" and "length (in_buf st) = cap"
    and "write_plan (sock st) = []"
    and "fault_in (infile st) = None" and "err_flag (infile st) = False"
    and "produced st = []"
  shows "(\<exists>fuel st' frames.
        do_while (send_delta_iteration cap it) fuel st = Some (Return 0, st')
        \<and> res st' = RS_DONE
        \<and> outbox (sock st') = outbox (sock st) @ concat (map frame_bytes frames)
        \<and> concat (map fst frames) = produced st')
    \<and> (job_eats_full cap it \<longrightarrow>
        (\<exists>fuel st' frames.
          do_while (send_signature_iteration cap it) fuel st = Some (Return 0, st')
          \<and> res st' = RS_DONE
          \<and> outbox (sock st') = outbox (sock st) @ concat (map frame_bytes frames)
          \<and> concat (map fst frames) = produced st'))"
proof -
  let ?base = "outbox (sock st)"
  let ?R = "inv_image (less_than <*lex*> less_than) (work_left m)"
  have cap: "cap \<le> 32767" using assms(2) by (simp add: BUFFER_SIZE_eq)
  have wf: "wf ?R" by (intro wf_inv_image wf_lex_prod wf_less_than)
  have entry: "pump_inv cap ?base st"
    using assms(5-10) by (rule pump_inv_entry)
  have "\<exists>n q b. do_while (send_delta_iteration cap it) n st = Some (q, b)
      \<and> (q = Return 0 \<and> delivered ?base b \<and> res b = RS_DONE)"
  proof (rule do_while_terminates [OF wf, where I = "pump_inv cap ?base"])
    show "pump_inv cap ?base st" by (rule entry)
  next
    fix a :: "'j pump" assume "pump_inv cap ?base a"
    from send_delta_iteration_progress [OF this assms(1) cap assms(3,4)]
    show "case send_delta_iteration cap it a of
        Next b \<Rightarrow> pump_inv cap ?base b \<and> (b, a) \<in> ?R
      | Exit q b \<Rightarrow> q = Return 0 \<and> delivered ?base b \<and> res b = RS_DONE"
      by (simp split: flow.splits)
  qed
  then have delta: "\<exists>fuel st' frames.
        do_while (send_delta_iteration cap it) fuel st = Some (Return 0, st')
        \<and> res st' = RS_DONE
        \<and> outbox (sock st') = ?base @ concat (map frame_bytes frames)
        \<and> concat (map fst frames) = produced st'"
    unfolding delivered_def by blast
  have sig: "\<exists>fuel st' frames.
        do_while (send_signature_iteration cap it) fuel st = Some (Return 0, st')
        \<and> res st' = RS_DONE
        \<and> outbox (sock st') = ?base @ concat (map frame_bytes frames)
        \<and> concat (map fst frames) = produced st'" if full: "job_eats_full cap it"
  proof -
    have "\<exists>n q b. do_while (send_signature_iteration cap it) n st = Some (q, b)
      \<and> (q = Return 0 \<and> delivered ?base b \<and> res b = RS_DONE)"
    proof (rule do_while_terminates [OF wf,
          where I = "\<lambda>a. pump_inv cap ?base a \<and> avail_in (bufs a) < cap"])
      show "pump_inv cap ?base st \<and> avail_in (bufs st) < cap"
        using entry assms(1,5) by (simp add: init_bufs_def)
    next
      fix a :: "'j pump" assume a: "pump_inv cap ?base a \<and> avail_in (bufs a) < cap"
      then have pa: "pump_inv cap ?base a" and ra: "avail_in (bufs a) < cap" by simp_all
      have "send_signature_iteration cap it a = send_delta_iteration cap it a"
        using pa assms(1) cap assms(3,4) ra by (rule send_signature_iteration_progress)
      moreover note send_delta_iteration_progress [OF pa assms(1) cap assms(3,4)]
      ultimately show "case send_signature_iteration cap it a of
          Next b \<Rightarrow> (pump_inv cap ?base b \<and> avail_in (bufs b) < cap) \<and> (b, a) \<in> ?R
        | Exit q b \<Rightarrow> q = Return 0 \<and> delivered ?base b \<and> res b = RS_DONE"
        using full by (simp split: flow.splits)
    qed
    then show ?thesis unfolding delivered_def by blast
  qed
  from delta sig show ?thesis by blast
qed

theorem pump_terminates_and_delivers_witness:
  "(0::nat) < 4 \<and> 4 \<le> BUFFER_SIZE \<and> job_contract copier \<and> job_live 4 (\<lambda>j. 0) copier
   \<and> job_eats_full 4 copier
   \<and> bufs small_pump = init_bufs 4 \<and> length (in_buf small_pump) = 4
   \<and> write_plan (sock small_pump) = [] \<and> fault_in (infile small_pump) = None
   \<and> err_flag (infile small_pump) = False \<and> produced small_pump = []
   \<and> (\<exists>fuel st' frames.
        do_while (send_delta_iteration 4 copier) fuel small_pump = Some (Return 0, st')
        \<and> res st' = RS_DONE
        \<and> outbox (sock st') = outbox (sock small_pump) @ concat (map frame_bytes frames)
        \<and> concat (map fst frames) = produced st')
   \<and> (\<exists>fuel st' frames.
        do_while (send_signature_iteration 4 copier) fuel small_pump = Some (Return 0, st')
        \<and> res st' = RS_DONE
        \<and> outbox (sock st') = outbox (sock small_pump) @ concat (map frame_bytes frames)
        \<and> concat (map fst frames) = produced st')
   \<and> map_option (\<lambda>(r, st). (r, outbox (sock st), produced st))
        (do_while (send_delta_iteration 4 copier) 4 small_pump) =
      Some (Return 0, [0, 8, 1, 2, 3, 4, 0, 8, 5, 6, 7, 8, 0, 4, 9, 10],
            [1, 2, 3, 4, 5, 6, 7, 8, 9, 10])"
proof -
  have h1: "(0::nat) < 4" by simp
  have h2: "4 \<le> BUFFER_SIZE" by (simp add: BUFFER_SIZE_eq)
  have h3: "job_contract copier" by (simp add: job_contract_def copier_def)
  have h4: "job_live 4 (\<lambda>j. 0) copier" by (auto simp add: job_live_def copier_def)
  have h5: "job_eats_full 4 copier" by (auto simp add: job_eats_full_def copier_def)
  have h6: "bufs small_pump = init_bufs 4" by (simp add: small_pump_def)
  have h7: "length (in_buf small_pump) = 4" by (simp add: small_pump_def)
  have h8: "write_plan (sock small_pump) = []" by (simp add: small_pump_def quiet_socket_def)
  have h9: "fault_in (infile small_pump) = None" by (simp add: small_pump_def opened_def)
  have h10: "err_flag (infile small_pump) = False" by (simp add: small_pump_def opened_def)
  have h11: "produced small_pump = []" by (simp add: small_pump_def)
  note main = pump_terminates_and_delivers [OF h1 h2 h3 h4 h6 h7 h8 h9 h10 h11]
  have run: "map_option (\<lambda>(r, st). (r, outbox (sock st), produced st))
        (do_while (send_delta_iteration 4 copier) 4 small_pump) =
      Some (Return 0, [0, 8, 1, 2, 3, 4, 0, 8, 5, 6, 7, 8, 0, 4, 9, 10],
            [1, 2, 3, 4, 5, 6, 7, 8, 9, 10])"
    unfolding four by (simp add: run_defs small_pump_def copier_def)
  from main h1 h2 h3 h4 h5 h6 h7 h8 h9 h10 h11 run show ?thesis by blast
qed

subsection \<open>Claim C5: \<^verbatim>\<open>send_signature\<close> stops at its assertion when the window stays full\<close>

text \<open>
  Claim C5 says that for every job that reaches \<^verbatim>\<open>RS_DONE\<close> after consuming its
  input, every sending loop terminates and the sink receives all the bytes the job
  writes. \<open>header_first\<close> is such a job: on a file of 32768 bytes \<^verbatim>\<open>send_delta\<close>
  returns 0 after the job has returned \<^verbatim>\<open>RS_DONE\<close>, the file and the window are
  empty, and the socket has received the three frames that carry the 32769 bytes the
  job has written (second part). With the same job and file \<^verbatim>\<open>send_signature\<close> does
  not get there (first part): the first step leaves the window full, the second call of
  \<^verbatim>\<open>fread\<close> is asked for \<^verbatim>\<open>sizeof(in_buf) - bufs.avail_in = 0\<close> bytes and returns 0
  with neither indicator set, and the assertion \<^verbatim>\<open>bufs.eof_in != 0\<close> stops the program
  when the socket has received one byte of the job's output and the last byte of the
  file has not been read.
\<close>

theorem send_signature_full_window:
  "map_option (\<lambda>(r, st). (r, outbox (sock st), fread_log (infile st),
        length (unread (infile st))))
     (send_signature header_first RS_DONE 2
        (entry 0 quiet_socket (opened (replicate 32768 7)) created)) =
   Some (Assert_failed Eof_reached, [0, 2, 1], [(32767, 32767), (0, 0)], 1)
   \<and> map_option (\<lambda>(r, st). (r, res st, unread (infile st), avail_in (bufs st),
        produced st, outbox (sock st)))
     (send_delta header_first RS_DONE 4
        (entry 0 quiet_socket (opened (replicate 32768 7)) created)) =
   Some (Return 0, RS_DONE, [], 0, 1 # replicate 32767 7 @ [7],
         [0, 2, 1, 255, 254] @ replicate 32767 7 @ [0, 2, 7])"
  unfolding two four
  by (simp add: run_defs header_first_def)

end
